theory Spec2Isabelle
  imports Main "HOL-Library.Word"
begin

section \<open>Bytes, slices, errors\<close>

type_synonym byte = "8 word"
type_synonym bytes = "byte list"
type_synonym int64 = "64 word"
type_synonym uint64 = "64 word"

text \<open>
  A Go \<^verbatim>\<open>[]byte\<close> value that the code compares with \<^verbatim>\<open>nil\<close> is an optional byte
  list: \<open>None\<close> is the nil slice, \<open>Some []\<close> an allocated slice of length zero.
  \<^verbatim>\<open>len\<close> is zero for both.
\<close>

type_synonym slice = "bytes option"

definition len :: "slice \<Rightarrow> nat" where
  "len d = (case d of None \<Rightarrow> 0 | Some bs \<Rightarrow> length bs)"

text \<open>
  Go \<^verbatim>\<open>error\<close> values. \<open>ErrCryptoStoreRequiresKey\<close> is the package's own error;
  every error that comes from a library call or from the wrapped store is an
  \<open>ErrExternal\<close> carrying its message.
\<close>

datatype error = ErrCryptoStoreRequiresKey | ErrExternal string

text \<open>
  A call either returns or stops in a run-time panic (a slice expression out of
  range, a nil dereference).
\<close>

datatype 'a outcome = Panics string | Returns 'a

text \<open>The built-in \<^verbatim>\<open>copy(dst, src)\<close>: the first \<open>min (len dst) (len src)\<close>
  bytes of \<open>dst\<close> are overwritten, the length of \<open>dst\<close> is kept.\<close>

definition copy :: "bytes \<Rightarrow> bytes \<Rightarrow> bytes" where
  "copy dst src = take (length dst) src @ drop (length src) dst"

section \<open>External collaborators\<close>

text \<open>
  The \<^verbatim>\<open>cipher.AEAD\<close> interface of the Go standard library, as far as the store
  uses it. \<open>Seal nonce plaintext\<close> is what \<^verbatim>\<open>Seal(dst[:0], nonce, plaintext, nil)\<close>
  appends; \<open>Open nonce ciphertext\<close> is \<^verbatim>\<open>Open(nil, nonce, ciphertext, nil)\<close>, the
  message of an error or the plaintext. The cipher itself (ChaCha20-Poly1305) is
  library code and stays a parameter.
\<close>

record aead =
  NonceSize :: nat
  Overhead :: nat
  Seal :: "bytes \<Rightarrow> bytes \<Rightarrow> bytes"
  Open :: "bytes \<Rightarrow> bytes \<Rightarrow> string + bytes"

text \<open>The two library calls of the constructor: \<^verbatim>\<open>sha256\<close> over the key and
  \<^verbatim>\<open>chacha20poly1305.New\<close> on the digest.\<close>

record crypto_lib =
  sha256_Sum :: "bytes \<Rightarrow> bytes"
  chacha20poly1305_New :: "bytes \<Rightarrow> string + aead"

text \<open>
  \<^verbatim>\<open>rand.Reader\<close> is the list of the outcomes of its successive \<^verbatim>\<open>Read\<close> calls,
  each the message of an error or the bytes that are there to be delivered; a
  reader with nothing left is at \<^verbatim>\<open>EOF\<close>. \<^verbatim>\<open>io.ReadFull(r, buf)\<close> is
  \<^verbatim>\<open>io.ReadAtLeast(r, buf, len(buf))\<close>: it reads until the buffer is full, does not
  read at all when nothing is missing, leaves in the reader what a \<^verbatim>\<open>Read\<close> had
  beyond the room in the buffer, and turns an \<^verbatim>\<open>EOF\<close> after some bytes into
  \<^verbatim>\<open>ErrUnexpectedEOF\<close>. \<open>got\<close> is what has been read so far, \<open>k\<close> what is missing.
\<close>

type_synonym reader = "(string + bytes) list"

fun ReadAtLeast :: "bytes \<Rightarrow> reader \<Rightarrow> nat \<Rightarrow> (error + bytes) \<times> reader" where
  "ReadAtLeast got [] k =
     (if k = 0 then (Inr got, [])
      else (Inl (ErrExternal (if got = [] then ''EOF'' else ''unexpected EOF'')), []))"
| "ReadAtLeast got (Inl e # r) k =
     (if k = 0 then (Inr got, Inl e # r)
      else (Inl (ErrExternal (if e = ''EOF'' \<and> got \<noteq> [] then ''unexpected EOF'' else e)), r))"
| "ReadAtLeast got (Inr bs # r) k =
     (if k = 0 then (Inr got, Inr bs # r)
      else if k < length bs then (Inr (got @ take k bs), Inr (drop k bs) # r)
      else if k = length bs then (Inr (got @ bs), r)
      else ReadAtLeast (got @ bs) r (k - length bs))"

definition ReadFull :: "reader \<Rightarrow> nat \<Rightarrow> (error + bytes) \<times> reader" where
  "ReadFull r n = ReadAtLeast [] r n"

section \<open>The crypto store\<close>

text \<open>
  What the nonce protocol does to the cipher, in the order it happens (latest
  first): a new nonce was installed, or \<^verbatim>\<open>Seal\<close> was called with a nonce on a
  plaintext. The log is an observation of the calls, not a field of the Go struct.
\<close>

datatype event = NewNonce bytes | Sealed bytes bytes

text \<open>
  The struct \<^verbatim>\<open>CryptoStore\<close>. The embedded \<^verbatim>\<open>sync.Mutex\<close> is the flag \<open>locked\<close>;
  the embedded \<^verbatim>\<open>Store\<close> is passed to the operations that delegate to it. The
  two sizes are what \<^verbatim>\<open>NonceSize()\<close> and \<^verbatim>\<open>Overhead()\<close> return, never negative.
\<close>

record CryptoStore =
  inEncrypt :: int64
  encrypted :: int64
  locked :: bool
  gcm :: aead
  nonce :: bytes
  nonceSize :: nat
  cryptoOverhead :: nat

text \<open>
  The store together with what its methods read and write outside the struct:
  the package variable \<^verbatim>\<open>csMaxEncryptCallsPerNonce\<close>, the process-wide
  \<^verbatim>\<open>rand.Reader\<close>, and the log of cipher events.
\<close>

record machine = CryptoStore +
  csMaxEncryptCallsPerNonce :: int64
  randReader :: reader
  sealLog :: "event list"

definition csDefaultMaxEncryptCallsPerNonce :: int64 where
  "csDefaultMaxEncryptCallsPerNonce = 0x100000000 - 10000"

definition generateNewNonce :: "'a machine_scheme \<Rightarrow> 'a machine_scheme \<times> error option" where
  "generateNewNonce cs =
     (case ReadFull (randReader cs) (NonceSize (gcm cs)) of
        (Inl err, r) \<Rightarrow> (cs\<lparr>randReader := r\<rparr>, Some err)
      | (Inr n, r) \<Rightarrow>
          (cs\<lparr>randReader := r, nonce := n, encrypted := 0,
              sealLog := NewNonce n # sealLog cs\<rparr>, None))"

text \<open>
  \<^verbatim>\<open>NewCryptoStore(s, key)\<close>. \<open>env\<close> is the value of the environment variable
  \<^verbatim>\<open>NATS_STREAMING_ENCRYPTION_KEY\<close> (empty when unset), \<open>lib\<close> the two library
  calls, \<open>maxCalls\<close> and \<open>rnd\<close> the package variable and the random source at
  the time of the call.
\<close>

definition NewCryptoStore ::
  "crypto_lib \<Rightarrow> string \<Rightarrow> int64 \<Rightarrow> reader \<Rightarrow> string \<Rightarrow> error + machine" where
  "NewCryptoStore lib env maxCalls rnd key =
     (if key = [] \<and> env = [] then Inl ErrCryptoStoreRequiresKey
      else
        let key = (if key = [] then env else key);
            keyHash = sha256_Sum lib (map of_char key)
        in case chacha20poly1305_New lib keyHash of
             Inl err \<Rightarrow> Inl (ErrExternal err)
           | Inr g \<Rightarrow>
               let cs = \<lparr>inEncrypt = 0, encrypted = 0, locked = False, gcm = g,
                         nonce = [], nonceSize = NonceSize g, cryptoOverhead = Overhead g,
                         csMaxEncryptCallsPerNonce = maxCalls, randReader = rnd,
                         sealLog = []\<rparr>
               in (case generateNewNonce cs of
                     (cs', Some err) \<Rightarrow> Inl err
                   | (cs', None) \<Rightarrow> Inr cs'))"

text \<open>\<^verbatim>\<open>cs.Lock()\<close> taken by the only running caller: it blocks for ever
  (\<open>None\<close>) when the mutex is held.\<close>

definition Lock :: "'a machine_scheme \<Rightarrow> 'a machine_scheme option" where
  "Lock cs = (if locked cs then None else Some (cs\<lparr>locked := True\<rparr>))"

definition Unlock :: "'a machine_scheme \<Rightarrow> 'a machine_scheme" where
  "Unlock cs = cs\<lparr>locked := False\<rparr>"

text \<open>The drain loop \<^verbatim>\<open>for atomic.LoadInt64(&cs.inEncrypt) > 0 { time.Sleep(...) }\<close>
  run with no other caller: not returning is \<open>None\<close>.\<close>

partial_function (option) waitInEncrypt :: "'a machine_scheme \<Rightarrow> 'a machine_scheme option" where
  "waitInEncrypt cs = (if 0 <s inEncrypt cs then waitInEncrypt cs else Some cs)"

text \<open>
  The tail of \<^verbatim>\<open>encrypt\<close> from \<^verbatim>\<open>buf := make(...)\<close> on. \<^verbatim>\<open>Seal\<close> appends to
  \<^verbatim>\<open>dst[:0]\<close>, whose capacity is what is left of \<^verbatim>\<open>buf\<close> after the nonce: an
  output that fits is written into \<^verbatim>\<open>buf\<close>; a longer one goes to a fresh array
  and the final slice expression exceeds the capacity of \<^verbatim>\<open>buf\<close>.
\<close>

definition sealInto ::
  "'a machine_scheme \<Rightarrow> bytes \<Rightarrow> 'a machine_scheme \<times> (error + bytes) outcome" where
  "sealInto cs data =
     (let buf0 = replicate (nonceSize cs + cryptoOverhead cs + length data) (0 :: byte);
          buf1 = copy buf0 (nonce cs);
          buf2 = take (nonceSize cs) buf1 @ copy (drop (nonceSize cs) buf1) data;
          dst = take (length data) (drop (nonceSize cs) buf2);
          ret = Seal (gcm cs) (nonce cs) dst;
          cs1 = cs\<lparr>sealLog := Sealed (nonce cs) dst # sealLog cs\<rparr>;
          cs2 = cs1\<lparr>inEncrypt := inEncrypt cs1 - 1\<rparr>
      in if length ret \<le> cryptoOverhead cs + length data
         then (cs2, Returns (Inr (take (nonceSize cs + length ret)
                 (take (nonceSize cs) buf2 @ ret @ drop (nonceSize cs + length ret) buf2))))
         else (cs2, Panics ''slice bounds out of range''))"

text \<open>
  \<^verbatim>\<open>encrypt\<close>, run by a caller that no other caller overlaps. The label
  \<^verbatim>\<open>CHECK_ENCRYPTED_COUNT\<close> with its \<^verbatim>\<open>goto\<close> is the recursion. The counters are
  64-bit and signed: the comparison with the maximum is signed and the increment
  wraps. Not returning (a mutex that is never released, a drain that never ends)
  is \<open>None\<close>.
\<close>

function encrypt ::
  "'a machine_scheme \<Rightarrow> bytes \<Rightarrow> ('a machine_scheme \<times> (error + bytes) outcome) option" where
  "encrypt cs data =
     (let cs1 = cs\<lparr>inEncrypt := inEncrypt cs + 1\<rparr>;
          count = encrypted cs1 + 1;
          cs2 = cs1\<lparr>encrypted := count\<rparr>
      in if csMaxEncryptCallsPerNonce cs2 \<le>s count then
           (case Lock (cs2\<lparr>inEncrypt := inEncrypt cs2 - 1\<rparr>) of
              None \<Rightarrow> None
            | Some cs3 \<Rightarrow>
                if count = csMaxEncryptCallsPerNonce cs3 then
                  (case waitInEncrypt cs3 of
                     None \<Rightarrow> None
                   | Some cs4 \<Rightarrow>
                       (case generateNewNonce cs4 of
                          (cs5, Some err) \<Rightarrow> Some (Unlock cs5, Returns (Inl err))
                        | (cs5, None) \<Rightarrow>
                            let cs6 = Unlock cs5;
                                cs7 = cs6\<lparr>inEncrypt := inEncrypt cs6 + 1\<rparr>
                            in Some (sealInto cs7 data)))
                else encrypt (Unlock cs3) data)
         else Some (sealInto cs2 data))"
  by pat_completeness auto

lemma sint_succ_int64: "sint x \<noteq> 2 ^ 63 - 1 \<Longrightarrow> sint (x + 1 :: int64) = sint x + 1"
proof -
  assume a: "sint x \<noteq> 2 ^ 63 - 1"
  have "- (2 ^ 63) \<le> sint x" "sint x < 2 ^ 63"
    using sint_ge [of x] sint_lt [of x] by simp_all
  with a have "signed_take_bit 63 (sint x + 1) = sint x + 1"
    by (intro signed_take_bit_int_eq_self) simp_all
  then show ?thesis
    by (simp add: sint_word_ariths)
qed

lemma sint_succ_wrap_int64: "sint x = 2 ^ 63 - 1 \<Longrightarrow> sint (x + 1 :: int64) = - (2 ^ 63)"
proof -
  assume "sint x = 2 ^ 63 - 1"
  then have "sint x = sint (0x7FFFFFFFFFFFFFFF :: int64)"
    by simp
  then have "x = 0x7FFFFFFFFFFFFFFF"
    by (simp only: signed_word_eqI)
  then show ?thesis
    by simp
qed

lemma count_above_max_no_wrap:
  assumes "m \<le>s x + 1" and "x + 1 \<noteq> (m :: int64)"
  shows "sint (x + 1) = sint x + 1"
proof (cases "sint x = 2 ^ 63 - 1")
  case True
  then have w: "sint (x + 1) = - (2 ^ 63)"
    by (rule sint_succ_wrap_int64)
  have "- (2 ^ 63) \<le> sint m"
    using sint_ge [of m] by simp
  with assms(1) w have "sint m = sint (x + 1)"
    by (simp add: word_sle_eq)
  then have "m = x + 1"
    by (simp only: signed_word_eqI)
  with assms(2) show ?thesis
    by simp
next
  case False
  then show ?thesis
    by (rule sint_succ_int64)
qed

termination encrypt
proof (relation "measure (\<lambda>(cs, data). nat (2 ^ 63 - sint (encrypted cs)))", goal_cases)
  case 1
  show ?case by simp
next
  case (2 cs data cs1 count cs2 cs3)
  from 2(5) have l: "locked cs3 = True" "encrypted cs3 = count"
    "csMaxEncryptCallsPerNonce cs3 = csMaxEncryptCallsPerNonce cs"
    using 2(1-3) by (auto simp: Lock_def split: if_splits)
  have c: "count = encrypted cs + 1"
    using 2(1,2) by simp
  have "csMaxEncryptCallsPerNonce cs \<le>s encrypted cs + 1"
    using 2(4) 2(1-3) by simp
  moreover have "encrypted cs + 1 \<noteq> csMaxEncryptCallsPerNonce cs"
    using 2(6) l c by simp
  ultimately have "sint (encrypted cs + 1) = sint (encrypted cs) + 1"
    by (rule count_above_max_no_wrap)
  moreover have "sint (encrypted cs + 1) < 2 ^ 63"
    using sint_lt [of "encrypted cs + 1"] by simp
  ultimately show ?case
    using l c by (simp add: Unlock_def)
qed

declare encrypt.simps [simp del]

text \<open>\<^verbatim>\<open>decrypt\<close>: the two slice expressions \<^verbatim>\<open>data[:cs.nonceSize]\<close> and
  \<^verbatim>\<open>data[cs.nonceSize:]\<close> are not guarded; the second one panics whenever the
  record is shorter than the nonce.\<close>

definition decrypt :: "'a machine_scheme \<Rightarrow> bytes \<Rightarrow> (error + bytes) outcome" where
  "decrypt cs data =
     (if length data < nonceSize cs then Panics ''slice bounds out of range''
      else Returns
        (case Open (gcm cs) (take (nonceSize cs) data) (drop (nonceSize cs) data) of
           Inl err \<Rightarrow> Inl (ErrExternal err)
         | Inr dd \<Rightarrow> Inr dd))"

section \<open>The wrapped store and its channels\<close>

text \<open>
  A message-store handle as a channel holds it: the handle of the wrapped store,
  or a \<^verbatim>\<open>&CryptoMsgStore{MsgStore: inner, cs: cs}\<close> around another handle, where
  \<open>'p\<close> is the type of pointers to crypto stores.
\<close>

datatype ('h, 'p) handle = Underlying 'h | CryptoMsgStore "('h, 'p) handle" 'p

text \<open>
  \<^verbatim>\<open>Channel\<close>, \<^verbatim>\<open>RecoveredChannel\<close> and \<^verbatim>\<open>RecoveredState\<close> are declared elsewhere in
  the package; the code reads one field of each. The other fields are the
  extension part of the records. A pointer that may be nil is an option.
\<close>

record ('h, 'p) Channel =
  Msgs :: "('h, 'p) handle"

record 'c RecoveredChannel =
  Channel :: "'c option"

record 'r RecoveredState =
  Channels :: "(string \<times> 'r option) list"

text \<open>The two methods of the wrapped \<^verbatim>\<open>Store\<close> that the crypto store overrides,
  acting on the state \<open>'u\<close> of the wrapped store.\<close>

record ('u, 'rs, 'c) Store =
  stRecover :: "'u \<Rightarrow> ('rs option \<times> error option) \<times> 'u"
  stCreateChannel :: "string \<Rightarrow> 'u \<Rightarrow> ('c option \<times> error option) \<times> 'u"

text \<open>The loop of \<^verbatim>\<open>Recover\<close> over \<^verbatim>\<open>rs.Channels\<close>; the statement
  \<^verbatim>\<open>rc.Channel.Msgs = ...\<close> dereferences both pointers.\<close>

fun wrapChannels ::
  "'p \<Rightarrow> (string \<times> (('h, 'p, 'x) Channel_scheme, 'y) RecoveredChannel_scheme option) list \<Rightarrow>
   (string \<times> (('h, 'p, 'x) Channel_scheme, 'y) RecoveredChannel_scheme option) list outcome" where
  "wrapChannels cs [] = Returns []"
| "wrapChannels cs ((name, None) # rest) = Panics ''nil pointer dereference''"
| "wrapChannels cs ((name, Some rc) # rest) =
     (case Channel rc of
        None \<Rightarrow> Panics ''nil pointer dereference''
      | Some c \<Rightarrow>
          (case wrapChannels cs rest of
             Panics msg \<Rightarrow> Panics msg
           | Returns rest' \<Rightarrow>
               Returns ((name, Some (rc\<lparr>Channel := Some (c\<lparr>Msgs := CryptoMsgStore (Msgs c) cs\<rparr>)\<rparr>))
                        # rest')))"

text \<open>\<^verbatim>\<open>Recover\<close> and \<^verbatim>\<open>CreateChannel\<close>. \<open>self\<close> is the receiver pointer; the
  deferred \<^verbatim>\<open>Unlock\<close> runs on every way out.\<close>

definition Recover ::
  "'p \<Rightarrow> ('u, ((('h, 'p, 'x) Channel_scheme, 'y) RecoveredChannel_scheme, 'z) RecoveredState_scheme, 'c) Store \<Rightarrow>
   'a machine_scheme \<times> 'u \<Rightarrow>
   (((((('h, 'p, 'x) Channel_scheme, 'y) RecoveredChannel_scheme, 'z) RecoveredState_scheme option
      \<times> error option) outcome) \<times> 'a machine_scheme \<times> 'u) option" where
  "Recover self st = (\<lambda>(cs, u).
     case Lock cs of
       None \<Rightarrow> None
     | Some cs1 \<Rightarrow>
         (case stRecover st u of
            ((None, err), u') \<Rightarrow> Some (Returns (None, err), Unlock cs1, u')
          | ((Some rs, err), u') \<Rightarrow>
              if err \<noteq> None then Some (Returns (Some rs, err), Unlock cs1, u')
              else
                (case wrapChannels self (Channels rs) of
                   Panics msg \<Rightarrow> Some (Panics msg, Unlock cs1, u')
                 | Returns chs \<Rightarrow>
                     Some (Returns (Some (rs\<lparr>Channels := chs\<rparr>), None), Unlock cs1, u'))))"

definition CreateChannel ::
  "'p \<Rightarrow> ('u, 'rs, ('h, 'p, 'x) Channel_scheme) Store \<Rightarrow> string \<Rightarrow>
   'a machine_scheme \<times> 'u \<Rightarrow>
   (((('h, 'p, 'x) Channel_scheme option \<times> error option) outcome) \<times> 'a machine_scheme \<times> 'u) option" where
  "CreateChannel self st channel = (\<lambda>(cs, u).
     case Lock cs of
       None \<Rightarrow> None
     | Some cs1 \<Rightarrow>
         (case stCreateChannel st channel u of
            ((c, Some err), u') \<Rightarrow> Some (Returns (None, Some err), Unlock cs1, u')
          | ((None, None), u') \<Rightarrow> Some (Panics ''nil pointer dereference'', Unlock cs1, u')
          | ((Some c, None), u') \<Rightarrow>
              Some (Returns (Some (c\<lparr>Msgs := CryptoMsgStore (Msgs c) self\<rparr>), None),
                    Unlock cs1, u')))"

section \<open>The encrypting message store\<close>

text \<open>
  \<^verbatim>\<open>pb.MsgProto\<close>, of which the code touches \<^verbatim>\<open>Data\<close>; the remaining fields are
  the extension part. Messages live in a heap, a list of objects addressed by
  position, so that a \<^verbatim>\<open>*pb.MsgProto\<close> is an address or nil and allocating appends.
\<close>

record MsgProto =
  Sequence :: uint64
  Data :: slice
  Timestamp :: int64

type_synonym 'z heap = "'z MsgProto_scheme list"

text \<open>The methods of the wrapped \<^verbatim>\<open>MsgStore\<close>, acting on its own state and on
  the heap.\<close>

record ('u, 'z) MsgStore =
  msStore :: "slice \<Rightarrow> 'u \<times> 'z heap \<Rightarrow> (uint64 \<times> error option) \<times> 'u \<times> 'z heap"
  msLookup :: "uint64 \<Rightarrow> 'u \<times> 'z heap \<Rightarrow> (nat option \<times> error option) \<times> 'u \<times> 'z heap"
  msFirstMsg :: "'u \<times> 'z heap \<Rightarrow> (nat option \<times> error option) \<times> 'u \<times> 'z heap"
  msLastMsg :: "'u \<times> 'z heap \<Rightarrow> (nat option \<times> error option) \<times> 'u \<times> 'z heap"

definition contents :: "slice \<Rightarrow> bytes" where
  "contents d = (case d of None \<Rightarrow> [] | Some bs \<Rightarrow> bs)"

text \<open>What \<^verbatim>\<open>Open(nil, ...)\<close> hands back as a slice: appending nothing to nil
  leaves nil.\<close>

definition appendToNil :: "bytes \<Rightarrow> slice" where
  "appendToNil dd = (if dd = [] then None else Some dd)"

definition Store ::
  "('u, 'z) MsgStore \<Rightarrow> slice \<Rightarrow> 'a machine_scheme \<times> 'u \<times> 'z heap \<Rightarrow>
   ((uint64 \<times> error option) outcome \<times> 'a machine_scheme \<times> 'u \<times> 'z heap) option" where
  "Store ms data = (\<lambda>(cs, w).
     if len data = 0 then
       (case msStore ms data w of (r, w') \<Rightarrow> Some (Returns r, cs, w'))
     else
       (case encrypt cs (contents data) of
          None \<Rightarrow> None
        | Some (cs', Panics msg) \<Rightarrow> Some (Panics msg, cs', w)
        | Some (cs', Returns (Inl err)) \<Rightarrow> Some (Returns (0, Some err), cs', w)
        | Some (cs', Returns (Inr ed)) \<Rightarrow>
            (case msStore ms (Some ed) w of (r, w') \<Rightarrow> Some (Returns r, cs', w'))))"

text \<open>\<^verbatim>\<open>decryptedMsg(m)\<close> for a non-nil \<open>m\<close>: \<^verbatim>\<open>retMsg := *m\<close> copies the object,
  \<^verbatim>\<open>&retMsg\<close> is a new address.\<close>

definition decryptedMsg ::
  "'a machine_scheme \<Rightarrow> nat \<Rightarrow> 'z heap \<Rightarrow> (nat option \<times> error option) outcome \<times> 'z heap" where
  "decryptedMsg cs m h =
     (case decrypt cs (contents (Data (h ! m))) of
        Panics msg \<Rightarrow> (Panics msg, h)
      | Returns (Inl err) \<Rightarrow> (Returns (None, Some err), h)
      | Returns (Inr dd) \<Rightarrow>
          (Returns (Some (length h), None), h @ [(h ! m)\<lparr>Data := appendToNil dd\<rparr>]))"

text \<open>The common body of \<^verbatim>\<open>Lookup\<close>, \<^verbatim>\<open>FirstMsg\<close> and \<^verbatim>\<open>LastMsg\<close> after the call
  of the wrapped method. An address outside the heap does not occur in Go; it is
  treated as a fault.\<close>

definition afterRead ::
  "'a machine_scheme \<Rightarrow> (nat option \<times> error option) \<times> 'u \<times> 'z heap \<Rightarrow>
   (nat option \<times> error option) outcome \<times> 'u \<times> 'z heap" where
  "afterRead cs = (\<lambda>((m, err), u, h).
     case m of
       None \<Rightarrow> (Returns (m, err), u, h)
     | Some a \<Rightarrow>
         if \<not> a < length h then (Panics ''invalid memory address'', u, h)
         else if Data (h ! a) = None \<or> err \<noteq> None then (Returns (m, err), u, h)
         else (case decryptedMsg cs a h of (r, h') \<Rightarrow> (r, u, h')))"

definition Lookup ::
  "('u, 'z) MsgStore \<Rightarrow> 'a machine_scheme \<Rightarrow> uint64 \<Rightarrow> 'u \<times> 'z heap \<Rightarrow>
   (nat option \<times> error option) outcome \<times> 'u \<times> 'z heap" where
  "Lookup ms cs seq w = afterRead cs (msLookup ms seq w)"

definition FirstMsg ::
  "('u, 'z) MsgStore \<Rightarrow> 'a machine_scheme \<Rightarrow> 'u \<times> 'z heap \<Rightarrow>
   (nat option \<times> error option) outcome \<times> 'u \<times> 'z heap" where
  "FirstMsg ms cs w = afterRead cs (msFirstMsg ms w)"

definition LastMsg ::
  "('u, 'z) MsgStore \<Rightarrow> 'a machine_scheme \<Rightarrow> 'u \<times> 'z heap \<Rightarrow>
   (nat option \<times> error option) outcome \<times> 'u \<times> 'z heap" where
  "LastMsg ms cs w = afterRead cs (msLastMsg ms w)"

section \<open>Overlapping callers of \<^verbatim>\<open>encrypt\<close>\<close>

text \<open>
  Several goroutines inside \<^verbatim>\<open>encrypt\<close> at once: each has a program point and
  its locals, and one step of one of them is one access to the shared store (an
  atomic operation on a counter, a mutex operation, a read or a write of
  \<^verbatim>\<open>cs.nonce\<close>). The program points follow the lines of the source.
\<close>

datatype point =
    AtIncInFlight     \<comment> \<open>label \<^verbatim>\<open>CHECK_ENCRYPTED_COUNT\<close>: \<^verbatim>\<open>atomic.AddInt64(&cs.inEncrypt, 1)\<close>\<close>
  | AtAddCount        \<comment> \<open>\<^verbatim>\<open>count := atomic.AddInt64(&cs.encrypted, 1)\<close> and the test against the maximum\<close>
  | AtDecInFlight     \<comment> \<open>\<^verbatim>\<open>atomic.AddInt64(&cs.inEncrypt, -1)\<close>\<close>
  | AtLock            \<comment> \<open>\<^verbatim>\<open>cs.Lock()\<close> and the test \<^verbatim>\<open>count == csMaxEncryptCallsPerNonce\<close>\<close>
  | AtDrain           \<comment> \<open>one test of \<^verbatim>\<open>for atomic.LoadInt64(&cs.inEncrypt) > 0\<close>\<close>
  | AtReadRand        \<comment> \<open>\<^verbatim>\<open>generateNewNonce\<close>: \<^verbatim>\<open>io.ReadFull(rand.Reader, nonce)\<close>\<close>
  | AtSetNonce        \<comment> \<open>\<^verbatim>\<open>cs.nonce = nonce\<close>\<close>
  | AtResetCount      \<comment> \<open>\<^verbatim>\<open>atomic.StoreInt64(&cs.encrypted, 0)\<close>\<close>
  | AtUnlockFail      \<comment> \<open>\<^verbatim>\<open>cs.Unlock(); return nil, err\<close>\<close>
  | AtUnlockRotated   \<comment> \<open>\<^verbatim>\<open>cs.Unlock()\<close> after the rotation\<close>
  | AtReenter         \<comment> \<open>\<^verbatim>\<open>atomic.AddInt64(&cs.inEncrypt, 1)\<close> after the rotation\<close>
  | AtUnlockRetry     \<comment> \<open>\<^verbatim>\<open>cs.Unlock(); goto CHECK_ENCRYPTED_COUNT\<close>\<close>
  | AtCopyNonce       \<comment> \<open>\<^verbatim>\<open>buf := make(...); copy(buf, cs.nonce)\<close>\<close>
  | AtSeal            \<comment> \<open>\<^verbatim>\<open>copy(buf[cs.nonceSize:], data)\<close> up to \<^verbatim>\<open>cs.gcm.Seal(dst[:0], cs.nonce, dst, nil)\<close>\<close>
  | AtLeave           \<comment> \<open>\<^verbatim>\<open>atomic.AddInt64(&cs.inEncrypt, -1)\<close> and the \<^verbatim>\<open>return\<close>\<close>
  | Done

record goroutine =
  point :: point
  data :: bytes
  count :: int64
  newNonce :: bytes
  buf :: bytes
  result :: "(error + bytes) outcome"

record system = machine +
  goroutines :: "goroutine list"

definition call :: "bytes \<Rightarrow> goroutine" where
  "call d = \<lparr>point = AtIncInFlight, data = d, count = 0, newNonce = [], buf = [],
             result = Returns (Inr [])\<rparr>"

definition spawn :: "machine \<Rightarrow> bytes list \<Rightarrow> system" where
  "spawn cs ds = machine.extend cs (system.fields (map call ds))"

definition resume :: "nat \<Rightarrow> goroutine \<Rightarrow> system \<Rightarrow> system" where
  "resume t g s = s\<lparr>goroutines := (goroutines s)[t := g]\<rparr>"

text \<open>One step of goroutine \<open>t\<close>; \<open>None\<close> when it cannot move: it does not
  exist, it has returned, or it waits for the mutex.\<close>

definition step :: "nat \<Rightarrow> system \<Rightarrow> system option" where
  "step t s =
     (if \<not> t < length (goroutines s) then None
      else
        let g = goroutines s ! t in
        case point g of
          AtIncInFlight \<Rightarrow>
            Some (resume t (g\<lparr>point := AtAddCount\<rparr>) (s\<lparr>inEncrypt := inEncrypt s + 1\<rparr>))
        | AtAddCount \<Rightarrow>
            let c = encrypted s + 1 in
            Some (resume t
              (g\<lparr>count := c,
                 point := (if csMaxEncryptCallsPerNonce s \<le>s c then AtDecInFlight else AtCopyNonce)\<rparr>)
              (s\<lparr>encrypted := c\<rparr>))
        | AtDecInFlight \<Rightarrow>
            Some (resume t (g\<lparr>point := AtLock\<rparr>) (s\<lparr>inEncrypt := inEncrypt s - 1\<rparr>))
        | AtLock \<Rightarrow>
            if locked s then None
            else Some (resume t
              (g\<lparr>point := (if count g = csMaxEncryptCallsPerNonce s then AtDrain else AtUnlockRetry)\<rparr>)
              (s\<lparr>locked := True\<rparr>))
        | AtDrain \<Rightarrow>
            if 0 <s inEncrypt s then Some s
            else Some (resume t (g\<lparr>point := AtReadRand\<rparr>) s)
        | AtReadRand \<Rightarrow>
            (case ReadFull (randReader s) (NonceSize (gcm s)) of
               (Inl err, r) \<Rightarrow>
                 Some (resume t (g\<lparr>point := AtUnlockFail, result := Returns (Inl err)\<rparr>)
                        (s\<lparr>randReader := r\<rparr>))
             | (Inr n, r) \<Rightarrow>
                 Some (resume t (g\<lparr>point := AtSetNonce, newNonce := n\<rparr>) (s\<lparr>randReader := r\<rparr>)))
        | AtSetNonce \<Rightarrow>
            Some (resume t (g\<lparr>point := AtResetCount\<rparr>)
                   (s\<lparr>nonce := newNonce g, sealLog := NewNonce (newNonce g) # sealLog s\<rparr>))
        | AtResetCount \<Rightarrow>
            Some (resume t (g\<lparr>point := AtUnlockRotated\<rparr>) (s\<lparr>encrypted := 0\<rparr>))
        | AtUnlockFail \<Rightarrow>
            Some (resume t (g\<lparr>point := Done\<rparr>) (s\<lparr>locked := False\<rparr>))
        | AtUnlockRotated \<Rightarrow>
            Some (resume t (g\<lparr>point := AtReenter\<rparr>) (s\<lparr>locked := False\<rparr>))
        | AtReenter \<Rightarrow>
            Some (resume t (g\<lparr>point := AtCopyNonce\<rparr>) (s\<lparr>inEncrypt := inEncrypt s + 1\<rparr>))
        | AtUnlockRetry \<Rightarrow>
            Some (resume t (g\<lparr>point := AtIncInFlight\<rparr>) (s\<lparr>locked := False\<rparr>))
        | AtCopyNonce \<Rightarrow>
            Some (resume t
              (g\<lparr>point := AtSeal,
                 buf := copy (replicate (nonceSize s + cryptoOverhead s + length (data g)) 0)
                          (nonce s)\<rparr>) s)
        | AtSeal \<Rightarrow>
            let buf2 = take (nonceSize s) (buf g) @ copy (drop (nonceSize s) (buf g)) (data g);
                dst = take (length (data g)) (drop (nonceSize s) buf2);
                ret = Seal (gcm s) (nonce s) dst
            in Some (resume t
              (g\<lparr>point := AtLeave,
                 result :=
                   (if length ret \<le> cryptoOverhead s + length (data g)
                    then Returns (Inr (take (nonceSize s + length ret)
                           (take (nonceSize s) buf2 @ ret @ drop (nonceSize s + length ret) buf2)))
                    else Panics ''slice bounds out of range'')\<rparr>)
              (s\<lparr>sealLog := Sealed (nonce s) dst # sealLog s\<rparr>))
        | AtLeave \<Rightarrow>
            Some (resume t (g\<lparr>point := Done\<rparr>) (s\<lparr>inEncrypt := inEncrypt s - 1\<rparr>))
        | Done \<Rightarrow> None)"

text \<open>A schedule names the goroutine that moves at each step.\<close>

fun run :: "nat list \<Rightarrow> system \<Rightarrow> system option" where
  "run [] s = Some s"
| "run (t # ts) s = (case step t s of None \<Rightarrow> None | Some s' \<Rightarrow> run ts s')"

section \<open>Counting the uses of a nonce\<close>

text \<open>The number of seals under each nonce of a log, the latest nonce first.
  The last entry counts the seals that precede the first installation in the
  log; it is 0 for the log of a store that \<^verbatim>\<open>NewCryptoStore\<close> built.\<close>

fun sealRuns :: "event list \<Rightarrow> nat list" where
  "sealRuns [] = [0]"
| "sealRuns (NewNonce n # es) = 0 # sealRuns es"
| "sealRuns (Sealed n p # es) =
     (case sealRuns es of [] \<Rightarrow> [Suc 0] | k # ks \<Rightarrow> Suc k # ks)"

text \<open>Calls of \<^verbatim>\<open>encrypt\<close> one after the other, as long as each returns a
  record; the records are collected.\<close>

fun encryptAll :: "'a machine_scheme \<Rightarrow> bytes list \<Rightarrow> ('a machine_scheme \<times> bytes list) option" where
  "encryptAll cs [] = Some (cs, [])"
| "encryptAll cs (d # ds) =
     (case encrypt cs d of
        Some (cs', Returns (Inr r)) \<Rightarrow>
          (case encryptAll cs' ds of None \<Rightarrow> None | Some (cs'', rs) \<Rightarrow> Some (cs'', r # rs))
      | _ \<Rightarrow> None)"

section \<open>A small cipher for concrete runs\<close>

text \<open>
  The library cipher is a parameter of the model; concrete runs use this
  stand-in with the sizes of ChaCha20-Poly1305 (nonce 12, tag 16, key 32). It
  shifts every byte by a value derived from key and nonce and appends a tag
  computed from key, nonce and plaintext.
\<close>

definition toyPad :: "bytes \<Rightarrow> bytes \<Rightarrow> byte" where
  "toyPad key n = sum_list key + sum_list n + 90"

definition toyTag :: "bytes \<Rightarrow> bytes \<Rightarrow> bytes \<Rightarrow> bytes" where
  "toyTag key n p = replicate 16 (sum_list p + toyPad key n)"

definition toySeal :: "bytes \<Rightarrow> bytes \<Rightarrow> bytes \<Rightarrow> bytes" where
  "toySeal key n p = map (\<lambda>b. b + toyPad key n) p @ toyTag key n p"

definition toyOpen :: "bytes \<Rightarrow> bytes \<Rightarrow> bytes \<Rightarrow> string + bytes" where
  "toyOpen key n c =
     (if length c < 16 then Inl ''message authentication failed''
      else
        let p = map (\<lambda>b. b - toyPad key n) (take (length c - 16) c)
        in if drop (length c - 16) c = toyTag key n p then Inr p
           else Inl ''message authentication failed'')"

definition toyAEAD :: "bytes \<Rightarrow> aead" where
  "toyAEAD key = \<lparr>NonceSize = 12, Overhead = 16, Seal = toySeal key, Open = toyOpen key\<rparr>"

definition toyLib :: crypto_lib where
  "toyLib = \<lparr>sha256_Sum = (\<lambda>k. take 32 (k @ replicate 32 0)),
             chacha20poly1305_New =
               (\<lambda>d. if length d \<noteq> 32 then Inl ''bad key length'' else Inr (toyAEAD d))\<rparr>"

section \<open>Contracts and invariants used in the statements\<close>

text \<open>
  What the store relies on from the cipher, as the \<^verbatim>\<open>cipher.AEAD\<close> documentation
  states it: with a nonce of the required length, sealing adds exactly the
  overhead, and opening what was sealed under the same nonce gives the
  plaintext back.
\<close>

definition aeadContract :: "aead \<Rightarrow> bool" where
  "aeadContract a =
     (\<forall>n p. length n = NonceSize a \<longrightarrow>
        length (Seal a n p) = length p + Overhead a \<and> Open a n (Seal a n p) = Inr p)"

text \<open>The relation between the fields that \<^verbatim>\<open>NewCryptoStore\<close> sets up: the two
  cached sizes are those of the cipher and the active nonce has the nonce size.\<close>

definition wellFormed :: "'a machine_scheme \<Rightarrow> bool" where
  "wellFormed cs =
     (nonceSize cs = NonceSize (gcm cs) \<and> cryptoOverhead cs = Overhead (gcm cs) \<and>
      length (nonce cs) = nonceSize cs)"

text \<open>No call is inside the store: the mutex is free and no seal is in flight.\<close>

definition idle :: "'a machine_scheme \<Rightarrow> bool" where
  "idle cs = (\<not> locked cs \<and> \<not> 0 <s inEncrypt cs)"

section \<open>A concrete store\<close>

text \<open>The store that \<^verbatim>\<open>NewCryptoStore(s, "ivan")\<close> builds with the small cipher,
  the maximum set to 2, and a random source that delivers \<open>nonceA\<close> first and
  then behaves as \<open>rnd\<close>.\<close>

definition nonceA :: bytes where
  "nonceA = [1, 2, 3, 4, 5, 6, 7, 8, 9, 10, 11, 12]"

definition nonceB :: bytes where
  "nonceB = [21, 22, 23, 24, 25, 26, 27, 28, 29, 30, 31, 32]"

definition nonceC :: bytes where
  "nonceC = [41, 42, 43, 44, 45, 46, 47, 48, 49, 50, 51, 52]"

definition ivanCipher :: aead where
  "ivanCipher = toyAEAD (take 32 (map of_char ''ivan'' @ replicate 32 0))"

definition ivanStore :: "reader \<Rightarrow> machine" where
  "ivanStore rnd =
     \<lparr>inEncrypt = 0, encrypted = 0, locked = False, gcm = ivanCipher,
      nonce = nonceA, nonceSize = 12, cryptoOverhead = 16,
      csMaxEncryptCallsPerNonce = 2, randReader = rnd, sealLog = [NewNonce nonceA]\<rparr>"

text \<open>A small in-memory message store for concrete runs: the heap holds the
  stored messages in order, and sequence numbers start at 1.\<close>

definition memStore :: "(unit, unit) MsgStore" where
  "memStore =
     \<lparr>msStore = (\<lambda>d (u, h).
        ((of_nat (Suc (length h)), None), u,
         h @ [\<lparr>Sequence = of_nat (Suc (length h)), Data = d, Timestamp = 0\<rparr>])),
      msLookup = (\<lambda>seq (u, h).
        ((if 0 < unat seq \<and> unat seq \<le> length h then Some (unat seq - 1) else None, None), u, h)),
      msFirstMsg = (\<lambda>(u, h). ((if h = [] then None else Some 0, None), u, h)),
      msLastMsg = (\<lambda>(u, h). ((if h = [] then None else Some (length h - 1), None), u, h))\<rparr>"

text \<open>
  \<open>nonceUseBounded\<close>: no nonce of the log has served more seals than the
  configured maximum. \<open>seqInv\<close>: the state of the counters between calls that do
  not overlap, while no nonce generation has failed: the store is idle, the
  counter is inside \<open>[0, maximum)\<close>, the use of every nonce is bounded, and the
  seals under the active nonce are at most one more than the counter (the one
  of the caller that installed it).
\<close>

definition nonceUseBounded :: "'a machine_scheme \<Rightarrow> bool" where
  "nonceUseBounded cs =
     list_all (\<lambda>k. int k \<le> sint (csMaxEncryptCallsPerNonce cs)) (sealRuns (sealLog cs))"

definition seqInv :: "'a machine_scheme \<Rightarrow> bool" where
  "seqInv cs =
     (idle cs \<and> 0 \<le> sint (encrypted cs) \<and>
      sint (encrypted cs) < sint (csMaxEncryptCallsPerNonce cs) \<and>
      nonceUseBounded cs \<and>
      int (hd (sealRuns (sealLog cs))) \<le> sint (encrypted cs) + 1)"

text \<open>
  Five callers, the maximum 2. Goroutine 0 seals under the first nonce.
  Goroutine 1 reaches the maximum, installs the second nonce and is descheduled
  between \<^verbatim>\<open>cs.Unlock()\<close> and \<^verbatim>\<open>atomic.AddInt64(&cs.inEncrypt, 1)\<close>. Goroutine 2
  seals under the second nonce, goroutine 3 reaches the maximum again, finds
  nothing in flight, installs the third nonce and seals. Then goroutine 1 goes
  on, and goroutine 4 makes the counted call of the third nonce.
\<close>

definition overlapSchedule :: "nat list" where
  "overlapSchedule =
     [0, 0, 0, 0, 0] @ [1, 1, 1, 1, 1, 1, 1, 1, 1] @ [2, 2, 2, 2, 2] @
     [3, 3, 3, 3, 3, 3, 3, 3, 3] @ [3, 3, 3, 3] @ [1, 1, 1, 1] @ [4, 4, 4, 4, 4]"

definition overlapStart :: system where
  "overlapStart = spawn (ivanStore [Inr nonceB, Inr nonceC]) [[0], [1], [2], [3], [4]]"

text \<open>The recovered state that the wrapped stores produce: no nil pointer among
  the recovered channels.\<close>

definition noNilChannel ::
  "(string \<times> ('c, 'y) RecoveredChannel_scheme option) list \<Rightarrow> bool" where
  "noNilChannel chs =
     list_all (\<lambda>(name, rc). case rc of None \<Rightarrow> False | Some r \<Rightarrow> Channel r \<noteq> None) chs"

text \<open>What \<^verbatim>\<open>Recover\<close> and \<^verbatim>\<open>CreateChannel\<close> do to one channel: the handle is
  replaced, the rest of the record stays.\<close>

definition withCryptoMsgs :: "'p \<Rightarrow> ('h, 'p, 'x) Channel_scheme \<Rightarrow> ('h, 'p, 'x) Channel_scheme" where
  "withCryptoMsgs self c = c\<lparr>Msgs := CryptoMsgStore (Msgs c) self\<rparr>"

text \<open>A small wrapped store for concrete runs: its state is the list of channel
  names, the handle of a channel is its position, recovery returns every
  channel.\<close>

definition nameStore ::
  "(string list, ((nat, nat) Channel RecoveredChannel) RecoveredState, (nat, nat) Channel) Store" where
  "nameStore =
     \<lparr>stRecover = (\<lambda>u.
        ((Some \<lparr>Channels = map (\<lambda>(i, name). (name, Some \<lparr>Channel = Some \<lparr>Msgs = Underlying i\<rparr>\<rparr>))
                               (enumerate 0 u)\<rparr>, None), u)),
      stCreateChannel = (\<lambda>name u. ((Some \<lparr>Msgs = Underlying (length u)\<rparr>, None), u @ [name]))\<rparr>"

text \<open>
  Four callers, the maximum 2. Goroutine 0 seals under the first nonce,
  goroutine 1 installs the second nonce and is descheduled between
  \<^verbatim>\<open>cs.Unlock()\<close> and \<^verbatim>\<open>atomic.AddInt64(&cs.inEncrypt, 1)\<close>, goroutine 2 seals under
  the second nonce. Goroutine 3 reaches the maximum and leaves the drain loop,
  nothing being in flight. Now goroutine 1 goes on up to \<^verbatim>\<open>copy(buf, cs.nonce)\<close>,
  goroutine 3 reads the random source and assigns \<^verbatim>\<open>cs.nonce\<close>, goroutine 1 calls
  \<^verbatim>\<open>Seal\<close> and returns, and goroutine 3 finishes.
\<close>

definition tornSchedule :: "nat list" where
  "tornSchedule =
     [0, 0, 0, 0, 0] @ [1, 1, 1, 1, 1, 1, 1, 1, 1] @ [2, 2, 2, 2, 2] @
     [3, 3, 3, 3, 3] @ [1, 1] @ [3, 3] @ [1, 1] @ [3, 3, 3, 3, 3, 3]"

definition tornStart :: system where
  "tornStart = spawn (ivanStore [Inr nonceB, Inr nonceC]) [[0], [1, 1], [2], [3]]"

section \<open>The cipher, the drain loop and the buffer\<close>

lemma toy_contract: "aeadContract (toyAEAD key)"
  by (simp add: aeadContract_def toyAEAD_def toySeal_def toyOpen_def toyTag_def o_def)

lemma waitInEncrypt_Some: "waitInEncrypt s = Some y \<Longrightarrow> \<not> 0 <s inEncrypt s"
  by (rule waitInEncrypt.raw_induct [where P = "\<lambda>s y. \<not> 0 <s inEncrypt s"])
     (auto split: if_splits)

lemma waitInEncrypt_eq: "waitInEncrypt s = (if 0 <s inEncrypt s then None else Some s)"
proof (cases "0 <s inEncrypt s")
  case False then show ?thesis by (simp add: waitInEncrypt.simps)
next
  case True
  then have "waitInEncrypt s = None"
    using waitInEncrypt_Some [of s] by (cases "waitInEncrypt s") auto
  with True show ?thesis by simp
qed

lemma sealInto_eq:
  assumes "length (nonce cs) = nonceSize cs"
    and "length (Seal (gcm cs) (nonce cs) P) \<le> cryptoOverhead cs + length P"
  shows "sealInto cs P =
    (cs\<lparr>sealLog := Sealed (nonce cs) P # sealLog cs, inEncrypt := inEncrypt cs - 1\<rparr>,
     Returns (Inr (nonce cs @ Seal (gcm cs) (nonce cs) P)))"
  using assms by (simp add: sealInto_def copy_def Let_def)

lemma ReadAtLeast_length:
  "ReadAtLeast got r k = (Inr bs, r') \<Longrightarrow> length bs = length got + k"
  by (induction got r k rule: ReadAtLeast.induct) (auto split: if_splits)

lemma ReadFull_length: "ReadFull r n = (Inr bs, r') \<Longrightarrow> length bs = n"
  using ReadAtLeast_length [of "[]" r n bs r'] by (simp add: ReadFull_def)

lemma ReadFull_exact:
  "length bs = n \<Longrightarrow> 0 < n \<Longrightarrow> ReadFull (Inr bs # r) n = (Inr bs, r)"
  "e \<noteq> ''EOF'' \<Longrightarrow> 0 < n \<Longrightarrow> ReadFull (Inl e # r) n = (Inl (ErrExternal e), r)"
  by (simp_all add: ReadFull_def)

lemma generateNewNonce_ok:
  "generateNewNonce cs = (cs', None) \<Longrightarrow>
     \<exists>n r. ReadFull (randReader cs) (NonceSize (gcm cs)) = (Inr n, r) \<and> length n = NonceSize (gcm cs) \<and>
       cs' = cs\<lparr>randReader := r, nonce := n, encrypted := 0, sealLog := NewNonce n # sealLog cs\<rparr>"
  by (auto simp: generateNewNonce_def dest: ReadFull_length split: prod.splits sum.splits)

lemma generateNewNonce_fail:
  "generateNewNonce cs = (cs', Some err) \<Longrightarrow>
     \<exists>r. ReadFull (randReader cs) (NonceSize (gcm cs)) = (Inl err, r) \<and> cs' = cs\<lparr>randReader := r\<rparr>"
  by (auto simp: generateNewNonce_def split: prod.splits sum.splits)

section \<open>Sealing and opening\<close>

text \<open>One unfolding of \<^verbatim>\<open>encrypt\<close>, by the three ways the counter test can go.\<close>

lemma encrypt_below:
  assumes "\<not> csMaxEncryptCallsPerNonce cs \<le>s encrypted cs + 1"
  shows "encrypt cs P = Some (sealInto (cs\<lparr>inEncrypt := inEncrypt cs + 1, encrypted := encrypted cs + 1\<rparr>) P)"
  using assms by (subst encrypt.simps) (simp add: Let_def)

lemma encrypt_rotate:
  assumes "encrypted cs + 1 = csMaxEncryptCallsPerNonce cs"
  shows "encrypt cs P =
    (if locked cs \<or> 0 <s inEncrypt cs then None
     else case generateNewNonce (cs\<lparr>encrypted := encrypted cs + 1, locked := True\<rparr>) of
        (cs5, Some err) \<Rightarrow> Some (Unlock cs5, Returns (Inl err))
      | (cs5, None) \<Rightarrow> Some (sealInto (Unlock cs5\<lparr>inEncrypt := inEncrypt cs5 + 1\<rparr>) P))"
  using assms
  apply (subst encrypt.simps)
  apply (simp add: Let_def Lock_def waitInEncrypt_eq Unlock_def split: prod.splits option.splits)
  done

lemma encrypt_retry:
  assumes "csMaxEncryptCallsPerNonce cs \<le>s encrypted cs + 1"
    and "encrypted cs + 1 \<noteq> csMaxEncryptCallsPerNonce cs"
  shows "encrypt cs P =
    (if locked cs then None else encrypt (cs\<lparr>encrypted := encrypted cs + 1, locked := False\<rparr>) P)"
  using assms
  apply (subst encrypt.simps)
  apply (simp add: Let_def Lock_def Unlock_def)
  done

lemma encrypt_cases_induct [case_names below rotate retry]:
  fixes cs :: "'a machine_scheme"
  assumes below: "\<And>cs :: 'a machine_scheme. \<not> csMaxEncryptCallsPerNonce cs \<le>s encrypted cs + 1 \<Longrightarrow> Q cs"
    and rotate: "\<And>cs :: 'a machine_scheme. encrypted cs + 1 = csMaxEncryptCallsPerNonce cs \<Longrightarrow> Q cs"
    and retry: "\<And>cs :: 'a machine_scheme. csMaxEncryptCallsPerNonce cs \<le>s encrypted cs + 1 \<Longrightarrow>
       encrypted cs + 1 \<noteq> csMaxEncryptCallsPerNonce cs \<Longrightarrow>
       Q (cs\<lparr>encrypted := encrypted cs + 1, locked := False\<rparr>) \<Longrightarrow> Q cs"
  shows "Q cs"
proof (induction "nat (2 ^ 63 - sint (encrypted cs))" arbitrary: cs rule: less_induct)
  case less
  show ?case
  proof (cases "csMaxEncryptCallsPerNonce cs \<le>s encrypted cs + 1")
    case False
    then show ?thesis by (rule below)
  next
    case True
    show ?thesis
    proof (cases "encrypted cs + 1 = csMaxEncryptCallsPerNonce cs")
      case True
      then show ?thesis by (rule rotate)
    next
      case False
      with True have "sint (encrypted cs + 1) = sint (encrypted cs) + 1"
        by (intro count_above_max_no_wrap) auto
      moreover have "sint (encrypted cs + 1) < 2 ^ 63"
        using sint_lt [of "encrypted cs + 1"] by simp
      ultimately have "Q (cs\<lparr>encrypted := encrypted cs + 1, locked := False\<rparr>)"
        by (intro less) simp
      with True False show ?thesis by (rule retry)
    qed
  qed
qed

lemma encrypt_returns:
  "\<not> locked cs \<Longrightarrow> \<not> 0 <s inEncrypt cs \<Longrightarrow> \<exists>r. encrypt cs P = Some r"
proof (induction cs rule: encrypt_cases_induct)
  case (below cs)
  then show ?case by (simp add: encrypt_below)
next
  case (rotate cs)
  then show ?case by (simp add: encrypt_rotate split: prod.splits option.splits)
next
  case (retry cs)
  then show ?case by (simp add: encrypt_retry)
qed

lemma length_copy: "length (copy dst src) = length dst"
  by (simp add: copy_def)

lemma copy_prefix: "length src \<le> length dst \<Longrightarrow> take (length src) (copy dst src) = src"
  by (simp add: copy_def)

lemma sealInto_dst:
  "take (length P) (drop n (take n (copy (replicate (n + v + length P) z) nc)
      @ copy (drop n (copy (replicate (n + v + length P) z) nc)) P)) = P"
proof -
  let ?b = "copy (replicate (n + v + length P) z) nc"
  have l: "length ?b = n + v + length P"
    by (simp add: length_copy)
  then have "drop n (take n ?b @ copy (drop n ?b) P) = copy (drop n ?b) P"
    by simp
  moreover have "take (length P) (copy (drop n ?b) P) = P"
    using l by (intro copy_prefix) simp
  ultimately show ?thesis
    by simp
qed

lemma sealInto_frame:
  "sealInto cs P = (cs', r) \<Longrightarrow>
     gcm cs' = gcm cs \<and> nonce cs' = nonce cs \<and> nonceSize cs' = nonceSize cs \<and>
     cryptoOverhead cs' = cryptoOverhead cs \<and> locked cs' = locked cs \<and>
     encrypted cs' = encrypted cs \<and> randReader cs' = randReader cs \<and>
     csMaxEncryptCallsPerNonce cs' = csMaxEncryptCallsPerNonce cs \<and>
     inEncrypt cs' = inEncrypt cs - 1 \<and>
     sealLog cs' = Sealed (nonce cs) P # sealLog cs"
  unfolding sealInto_def Let_def sealInto_dst by (auto split: if_splits)

lemma encrypt_frame:
  "encrypt cs P = Some (cs', r) \<Longrightarrow>
     gcm cs' = gcm cs \<and> nonceSize cs' = nonceSize cs \<and> cryptoOverhead cs' = cryptoOverhead cs \<and>
     csMaxEncryptCallsPerNonce cs' = csMaxEncryptCallsPerNonce cs \<and>
     inEncrypt cs' = inEncrypt cs \<and> locked cs' = locked cs \<and>
     (wellFormed cs \<longrightarrow> wellFormed cs')"
proof (induction cs rule: encrypt_cases_induct)
  case (below cs)
  then show ?case
    by (auto simp: encrypt_below wellFormed_def dest!: sealInto_frame)
next
  case (rotate cs)
  then show ?case
    apply (auto simp: encrypt_rotate wellFormed_def Unlock_def split: prod.splits option.splits if_splits
         dest!: sealInto_frame generateNewNonce_ok generateNewNonce_fail)
    done
next
  case (retry cs)
  then show ?case
    by (auto simp: encrypt_retry wellFormed_def split: if_splits)
qed

lemma encrypt_no_panic:
  assumes "aeadContract (gcm cs)" and "wellFormed cs" and "encrypt cs P = Some (cs', r)"
  shows "(\<exists>err. r = Returns (Inl err)) \<or>
         r = Returns (Inr (nonce cs' @ Seal (gcm cs') (nonce cs') P))"
  using assms
proof (induction cs rule: encrypt_cases_induct)
  case (below cs)
  let ?c = "cs\<lparr>inEncrypt := inEncrypt cs + 1, encrypted := encrypted cs + 1\<rparr>"
  have "sealInto ?c P = (?c\<lparr>sealLog := Sealed (nonce ?c) P # sealLog ?c, inEncrypt := inEncrypt ?c - 1\<rparr>,
     Returns (Inr (nonce ?c @ Seal (gcm ?c) (nonce ?c) P)))"
    using below(2,3) by (intro sealInto_eq) (simp_all add: wellFormed_def aeadContract_def)
  with below show ?case
    by (auto simp: encrypt_below)
next
  case (rotate cs)
  show ?case
  proof (cases "generateNewNonce (cs\<lparr>encrypted := encrypted cs + 1, locked := True\<rparr>)")
    case (Pair cs5 e)
    show ?thesis
    proof (cases e)
      case (Some err)
      with Pair rotate show ?thesis
        by (auto simp: encrypt_rotate split: if_splits)
    next
      case None
      from generateNewNonce_ok [OF Pair [unfolded None]]
      obtain n r where n: "length n = NonceSize (gcm cs)"
        and cs5: "cs5 = cs\<lparr>encrypted := encrypted cs + 1, locked := True, randReader := r, nonce := n,
           encrypted := 0, sealLog := NewNonce n # sealLog cs\<rparr>"
        by auto
      let ?c = "Unlock cs5\<lparr>inEncrypt := inEncrypt cs5 + 1\<rparr>"
      have "sealInto ?c P = (?c\<lparr>sealLog := Sealed (nonce ?c) P # sealLog ?c, inEncrypt := inEncrypt ?c - 1\<rparr>,
         Returns (Inr (nonce ?c @ Seal (gcm ?c) (nonce ?c) P)))"
        using rotate(2,3) n cs5
        by (intro sealInto_eq) (simp_all add: wellFormed_def aeadContract_def Unlock_def)
      with Pair None rotate show ?thesis
        by (auto simp: encrypt_rotate Unlock_def cs5 split: if_splits)
    qed
  qed
next
  case (retry cs)
  then show ?case
    by (auto simp: encrypt_retry wellFormed_def split: if_splits)
qed

text \<open>
  The round trip of a call that runs alone. On a store as \<^verbatim>\<open>NewCryptoStore\<close>
  sets it up, with no other call inside, a call of \<^verbatim>\<open>encrypt\<close> on a payload
  returns, without panic; and when it returns a record, \<^verbatim>\<open>decrypt\<close> on the same
  store gives the payload back.
\<close>

theorem encrypt_then_decrypt:
  assumes "aeadContract (gcm cs)" and "wellFormed cs" and "idle cs"
  shows "\<exists>cs' res. encrypt cs P = Some (cs', Returns res) \<and>
           (\<forall>rec. res = Inr rec \<longrightarrow> decrypt cs' rec = Returns (Inr P))"
proof -
  from assms(3) have "\<exists>r. encrypt cs P = Some r"
    unfolding idle_def by (intro encrypt_returns) simp_all
  then obtain cs' r where e: "encrypt cs P = Some (cs', r)"
    by (metis surj_pair)
  from encrypt_frame [OF e] assms(2)
  have f: "gcm cs' = gcm cs" "wellFormed cs'"
    by simp_all
  from encrypt_no_panic [OF assms(1,2) e]
  consider err where "r = Returns (Inl err)"
    | "r = Returns (Inr (nonce cs' @ Seal (gcm cs') (nonce cs') P))"
    by blast
  then show ?thesis
  proof cases
    case 1
    with e show ?thesis by simp
  next
    case 2
    have "decrypt cs' (nonce cs' @ Seal (gcm cs') (nonce cs') P) = Returns (Inr P)"
      using f assms(1) by (simp add: decrypt_def wellFormed_def aeadContract_def)
    with e 2 show ?thesis by simp
  qed
qed

lemma ivanStore_new: "NewCryptoStore toyLib [] 2 (Inr nonceA # rnd) ''ivan'' = Inr (ivanStore rnd)"
  by (simp add: NewCryptoStore_def toyLib_def generateNewNonce_def ivanStore_def ivanCipher_def
      toyAEAD_def nonceA_def ReadFull_def)

lemma ivanCipher_sizes: "NonceSize ivanCipher = 12" "Overhead ivanCipher = 16"
  by (simp_all add: ivanCipher_def toyAEAD_def)

lemma ivanCipher_contract: "aeadContract ivanCipher"
  unfolding ivanCipher_def by (rule toy_contract)

lemma ivanStore_ok:
  "aeadContract (gcm (ivanStore rnd))" "wellFormed (ivanStore rnd)" "idle (ivanStore rnd)"
  by (simp_all add: ivanStore_def ivanCipher_contract ivanCipher_sizes wellFormed_def idle_def nonceA_def)


theorem encrypt_then_decrypt_witness:
  "aeadContract (gcm (ivanStore [])) \<and> wellFormed (ivanStore []) \<and> idle (ivanStore []) \<and>
   (\<exists>cs'. encrypt (ivanStore []) (map of_char ''msg0'') =
       Some (cs', Returns (Inr (nonceA @ Seal ivanCipher nonceA (map of_char ''msg0'')))) \<and>
     decrypt cs' (nonceA @ Seal ivanCipher nonceA (map of_char ''msg0''))
       = Returns (Inr (map of_char ''msg0'')))"
proof -
  let ?P = "map of_char ''msg0'' :: bytes"
  let ?c = "(ivanStore [])\<lparr>inEncrypt := inEncrypt (ivanStore []) + 1, encrypted := encrypted (ivanStore []) + 1\<rparr>"
  have b: "encrypt (ivanStore []) ?P = Some (sealInto ?c ?P)"
    by (intro encrypt_below) (simp add: ivanStore_def word_sle_eq)
  have "length (Seal ivanCipher nonceA ?P) = length ?P + 16"
    using ivanCipher_contract by (simp add: aeadContract_def ivanCipher_sizes nonceA_def)
  then have s: "snd (sealInto ?c ?P) = Returns (Inr (nonceA @ Seal ivanCipher nonceA ?P))"
    by (subst sealInto_eq) (simp_all add: ivanStore_def nonceA_def)
  from encrypt_then_decrypt [OF ivanStore_ok, of "[]" ?P] b s ivanStore_ok [of "[]"]
  show ?thesis
    by (cases "sealInto ?c ?P") auto
qed




section \<open>Calls that do not overlap\<close>

lemma sealRuns_not_Nil: "sealRuns es \<noteq> []"
  by (induction es rule: sealRuns.induct) (auto split: list.splits)

lemma sealRuns_Sealed: "sealRuns (Sealed n p # es) = Suc (hd (sealRuns es)) # tl (sealRuns es)"
  using sealRuns_not_Nil [of es] by (cases "sealRuns es") auto

lemma sint_count_in_range:
  assumes "0 \<le> sint (x :: int64)" and "sint x < sint (m :: int64)"
  shows "sint (x + 1) = sint x + 1"
proof -
  have "sint m < 2 ^ 63"
    using sint_lt [of m] by simp
  with assms have "sint x \<noteq> 2 ^ 63 - 1"
    by linarith
  then show ?thesis
    by (rule sint_succ_int64)
qed

lemma list_all_hd_tl:
  "xs \<noteq> [] \<Longrightarrow> list_all Q xs \<Longrightarrow> Q y \<Longrightarrow> list_all Q (y # tl xs)"
  by (cases xs) auto

lemma seqInv_intro:
  assumes "\<not> locked cs" and "\<not> 0 <s inEncrypt cs"
    and "0 \<le> sint (encrypted cs)" and "sint (encrypted cs) < sint (csMaxEncryptCallsPerNonce cs)"
    and "sealRuns (sealLog cs) = k # ks"
    and "int k \<le> sint (encrypted cs) + 1"
    and "list_all (\<lambda>k. int k \<le> sint (csMaxEncryptCallsPerNonce cs)) ks"
  shows "seqInv cs"
proof -
  from assms(4,6) have "int k \<le> sint (csMaxEncryptCallsPerNonce cs)"
    by linarith
  with assms show ?thesis
    by (simp add: seqInv_def idle_def nonceUseBounded_def)
qed

lemma seqInv_below:
  assumes "seqInv cs" and "encrypted cs + 1 \<noteq> csMaxEncryptCallsPerNonce cs"
    and "encrypt cs d = Some (cs', res)"
  shows "seqInv cs' \<and> encrypted cs + 1 <s csMaxEncryptCallsPerNonce cs \<and> nonce cs' = nonce cs \<and>
       encrypted cs' = encrypted cs + 1 \<and> sealLog cs' = Sealed (nonce cs) d # sealLog cs"
proof -
  let ?m = "csMaxEncryptCallsPerNonce cs"
  from assms(1) have i: "\<not> locked cs" "\<not> 0 <s inEncrypt cs"
    and r: "0 \<le> sint (encrypted cs)" "sint (encrypted cs) < sint ?m"
    and a: "list_all (\<lambda>k. int k \<le> sint ?m) (sealRuns (sealLog cs))"
    and h: "int (hd (sealRuns (sealLog cs))) \<le> sint (encrypted cs) + 1"
    by (simp_all add: seqInv_def idle_def nonceUseBounded_def)
  have c: "sint (encrypted cs + 1) = sint (encrypted cs) + 1"
    using r by (rule sint_count_in_range)
  have "sint (encrypted cs + 1) \<noteq> sint ?m"
    using assms(2) signed_word_eqI by blast
  with c r have lt: "sint (encrypted cs + 1) < sint ?m"
    by linarith
  then have b: "\<not> ?m \<le>s encrypted cs + 1"
    by (simp add: word_sle_eq)
  let ?c = "cs\<lparr>inEncrypt := inEncrypt cs + 1, encrypted := encrypted cs + 1\<rparr>"
  from assms(3) have s: "sealInto ?c d = (cs', res)"
    by (simp add: encrypt_below [OF b])
  from sealInto_frame [OF s]
  have f: "encrypted cs' = encrypted cs + 1" "inEncrypt cs' = inEncrypt cs" "locked cs' = locked cs"
    "csMaxEncryptCallsPerNonce cs' = ?m" "sealLog cs' = Sealed (nonce cs) d # sealLog cs"
    "nonce cs' = nonce cs"
    by simp_all
  obtain k ks where ks: "sealRuns (sealLog cs) = k # ks"
    using sealRuns_not_Nil [of "sealLog cs"] by (cases "sealRuns (sealLog cs)") auto
  have "seqInv cs'"
  proof (rule seqInv_intro)
    show "\<not> locked cs'" "\<not> 0 <s inEncrypt cs'"
      using i f by simp_all
    show "0 \<le> sint (encrypted cs')" "sint (encrypted cs') < sint (csMaxEncryptCallsPerNonce cs')"
      using c r lt f by simp_all
    show "sealRuns (sealLog cs') = Suc k # ks"
      using ks f by simp
    show "int (Suc k) \<le> sint (encrypted cs') + 1"
      using h ks c f by simp
    show "list_all (\<lambda>k. int k \<le> sint (csMaxEncryptCallsPerNonce cs')) ks"
      using a ks f by simp
  qed
  moreover have "encrypted cs + 1 <s ?m"
    using lt by (simp add: word_sless_alt)
  ultimately show ?thesis
    using f by simp
qed

lemma seqInv_rotate:
  assumes "seqInv cs" and "encrypted cs + 1 = csMaxEncryptCallsPerNonce cs"
    and "encrypt cs d = Some (cs', Returns (Inr r))"
  shows "seqInv cs' \<and> encrypted cs' = 0 \<and>
       sealLog cs' = Sealed (nonce cs') d # NewNonce (nonce cs') # sealLog cs"
proof -
  let ?m = "csMaxEncryptCallsPerNonce cs"
  from assms(1) have i: "\<not> locked cs" "\<not> 0 <s inEncrypt cs"
    and r: "0 \<le> sint (encrypted cs)" "sint (encrypted cs) < sint ?m"
    and a: "list_all (\<lambda>k. int k \<le> sint ?m) (sealRuns (sealLog cs))"
    by (simp_all add: seqInv_def idle_def nonceUseBounded_def)
  have c: "sint (encrypted cs + 1) = sint (encrypted cs) + 1"
    using r by (rule sint_count_in_range)
  have one: "1 \<le> sint ?m"
    using assms(2) [symmetric] c r by simp
  obtain cs5 e where g: "generateNewNonce (cs\<lparr>encrypted := encrypted cs + 1, locked := True\<rparr>) = (cs5, e)"
    by (cases "generateNewNonce (cs\<lparr>encrypted := encrypted cs + 1, locked := True\<rparr>)") auto
  have "e = None"
    using assms(2,3) g i by (cases e) (simp_all add: encrypt_rotate)
  with g generateNewNonce_ok [of "cs\<lparr>encrypted := encrypted cs + 1, locked := True\<rparr>" cs5]
  obtain n rd where cs5: "cs5 = cs\<lparr>encrypted := encrypted cs + 1, locked := True, randReader := rd,
       nonce := n, encrypted := 0, sealLog := NewNonce n # sealLog cs\<rparr>"
    by auto
  from assms(2,3) g \<open>e = None\<close> i
  have s: "sealInto (Unlock cs5\<lparr>inEncrypt := inEncrypt cs5 + 1\<rparr>) d = (cs', Returns (Inr r))"
    by (simp add: encrypt_rotate)
  from sealInto_frame [OF s]
  have f: "encrypted cs' = 0" "inEncrypt cs' = inEncrypt cs" "locked cs' = False"
    "csMaxEncryptCallsPerNonce cs' = ?m" "sealLog cs' = Sealed n d # NewNonce n # sealLog cs"
    "nonce cs' = n"
    by (simp_all add: cs5 Unlock_def)
  have "seqInv cs'"
  proof (rule seqInv_intro)
    show "\<not> locked cs'" "\<not> 0 <s inEncrypt cs'"
      using i f by simp_all
    show "0 \<le> sint (encrypted cs')" "sint (encrypted cs') < sint (csMaxEncryptCallsPerNonce cs')"
      using one f by simp_all
    show "sealRuns (sealLog cs') = Suc 0 # sealRuns (sealLog cs)"
      using f by simp
    show "int (Suc 0) \<le> sint (encrypted cs') + 1"
      using f by simp
    show "list_all (\<lambda>k. int k \<le> sint (csMaxEncryptCallsPerNonce cs')) (sealRuns (sealLog cs))"
      using a f by simp
  qed
  with f show ?thesis
    by simp
qed

lemma seqInv_encryptAll:
  "seqInv cs \<Longrightarrow> encryptAll cs ds = Some (cs', rs) \<Longrightarrow> seqInv cs'"
proof (induction ds arbitrary: cs rs)
  case Nil
  then show ?case by simp
next
  case (Cons d ds)
  from Cons.prems(2) obtain cs1 r rs1 where e: "encrypt cs d = Some (cs1, Returns (Inr r))"
    and a: "encryptAll cs1 ds = Some (cs', rs1)"
    by (auto split: option.splits prod.splits outcome.splits sum.splits)
  have "seqInv cs1"
    using seqInv_below [OF Cons.prems(1) _ e] seqInv_rotate [OF Cons.prems(1) _ e]
    by (cases "encrypted cs + 1 = csMaxEncryptCallsPerNonce cs") simp_all
  then show ?case
    using a by (rule Cons.IH)
qed

lemma NewCryptoStore_Inr:
  assumes "NewCryptoStore lib env maxCalls rnd key = Inr cs"
  shows "\<exists>g n r. chacha20poly1305_New lib (sha256_Sum lib (map of_char (if key = [] then env else key))) = Inr g \<and>
     ReadFull rnd (NonceSize g) = (Inr n, r) \<and>
     cs = \<lparr>inEncrypt = 0, encrypted = 0, locked = False, gcm = g,
           nonce = n, nonceSize = NonceSize g, cryptoOverhead = Overhead g,
           csMaxEncryptCallsPerNonce = maxCalls, randReader = r, sealLog = [NewNonce n]\<rparr>"
  using assms
  by (auto simp: NewCryptoStore_def generateNewNonce_def Let_def
      split: if_splits sum.splits prod.splits)

lemma seqInv_new:
  assumes "NewCryptoStore lib env maxCalls rnd key = Inr cs" and "0 <s maxCalls"
  shows "seqInv cs"
  using NewCryptoStore_Inr [OF assms(1)] assms(2)
  by (auto simp: seqInv_def idle_def word_sless_alt nonceUseBounded_def)


lemma encryptAll_max:
  "encryptAll cs ds = Some (cs', rs) \<Longrightarrow>
     csMaxEncryptCallsPerNonce cs' = csMaxEncryptCallsPerNonce cs"
proof (induction ds arbitrary: cs rs)
  case Nil
  then show ?case by simp
next
  case (Cons d ds)
  from Cons.prems obtain cs1 r rs1 where e: "encrypt cs d = Some (cs1, Returns (Inr r))"
    and a: "encryptAll cs1 ds = Some (cs', rs1)"
    by (auto split: option.splits prod.splits outcome.splits sum.splits)
  from encrypt_frame [OF e] Cons.IH [OF a] show ?case
    by simp
qed

section \<open>Callers that overlap\<close>

lemma run_append:
  "run (xs @ ys) s = (case run xs s of None \<Rightarrow> None | Some s' \<Rightarrow> run ys s')"
  by (induction xs arbitrary: s) (auto split: option.splits)

text \<open>Five steps of a caller whose count stays below the maximum.\<close>

lemma run_counted_seal:
  assumes "t < length (goroutines s)" and "point (goroutines s ! t) = AtIncInFlight"
    and "\<not> csMaxEncryptCallsPerNonce s \<le>s encrypted s + 1"
  shows "\<exists>s'. run [t, t, t, t, t] s = Some s' \<and>
     sealLog s' = Sealed (nonce s) (data (goroutines s ! t)) # sealLog s \<and>
     encrypted s' = encrypted s + 1 \<and> inEncrypt s' = inEncrypt s \<and> locked s' = locked s \<and>
     nonce s' = nonce s \<and> gcm s' = gcm s \<and> nonceSize s' = nonceSize s \<and>
     cryptoOverhead s' = cryptoOverhead s \<and> randReader s' = randReader s \<and>
     csMaxEncryptCallsPerNonce s' = csMaxEncryptCallsPerNonce s \<and>
     map point (goroutines s') = (map point (goroutines s))[t := Done] \<and>
     map data (goroutines s') = map data (goroutines s)"
  using assms
  by (simp add: step_def resume_def Let_def length_copy copy_prefix map_update list_update_same_conv)

text \<open>Nine steps of the caller whose count is the maximum, up to and including
  the \<^verbatim>\<open>cs.Unlock()\<close> after the rotation.\<close>

lemma run_rotation:
  assumes "t < length (goroutines s)" and "point (goroutines s ! t) = AtIncInFlight"
    and "encrypted s + 1 = csMaxEncryptCallsPerNonce s"
    and "\<not> locked s" and "\<not> 0 <s inEncrypt s"
    and "ReadFull (randReader s) (NonceSize (gcm s)) = (Inr n, r)"
  shows "\<exists>s'. run [t, t, t, t, t, t, t, t, t] s = Some s' \<and>
     sealLog s' = NewNonce n # sealLog s \<and>
     encrypted s' = 0 \<and> inEncrypt s' = inEncrypt s \<and> locked s' = False \<and>
     nonce s' = n \<and> gcm s' = gcm s \<and> nonceSize s' = nonceSize s \<and>
     cryptoOverhead s' = cryptoOverhead s \<and> randReader s' = r \<and>
     csMaxEncryptCallsPerNonce s' = csMaxEncryptCallsPerNonce s \<and>
     map point (goroutines s') = (map point (goroutines s))[t := AtReenter] \<and>
     map data (goroutines s') = map data (goroutines s)"
  using assms
  by (simp add: step_def resume_def Let_def map_update list_update_same_conv)

text \<open>The four steps that remain to the caller that rotated.\<close>

lemma run_reenter_seal:
  assumes "t < length (goroutines s)" and "point (goroutines s ! t) = AtReenter"
  shows "\<exists>s'. run [t, t, t, t] s = Some s' \<and>
     sealLog s' = Sealed (nonce s) (data (goroutines s ! t)) # sealLog s \<and>
     encrypted s' = encrypted s \<and> inEncrypt s' = inEncrypt s \<and> locked s' = locked s \<and>
     nonce s' = nonce s \<and> gcm s' = gcm s \<and> nonceSize s' = nonceSize s \<and>
     cryptoOverhead s' = cryptoOverhead s \<and> randReader s' = randReader s \<and>
     csMaxEncryptCallsPerNonce s' = csMaxEncryptCallsPerNonce s \<and>
     map point (goroutines s') = (map point (goroutines s))[t := Done] \<and>
     map data (goroutines s') = map data (goroutines s)"
  using assms
  by (simp add: step_def resume_def Let_def length_copy copy_prefix map_update list_update_same_conv)


lemma nth_map_point:
  "t < length (map data (goroutines s)) \<Longrightarrow>
     point (goroutines s ! t) = map point (goroutines s) ! t \<and>
     data (goroutines s ! t) = map data (goroutines s) ! t \<and> t < length (goroutines s)"
  by simp

lemma overlapStart_fields:
  "sealLog overlapStart = [NewNonce nonceA]" "encrypted overlapStart = 0"
  "inEncrypt overlapStart = 0" "locked overlapStart = False" "nonce overlapStart = nonceA"
  "gcm overlapStart = ivanCipher" "randReader overlapStart = [Inr nonceB, Inr nonceC]"
  "csMaxEncryptCallsPerNonce overlapStart = 2"
  "map point (goroutines overlapStart) =
     [AtIncInFlight, AtIncInFlight, AtIncInFlight, AtIncInFlight, AtIncInFlight]"
  "map data (goroutines overlapStart) = [[0], [1], [2], [3], [4]]"
  by (simp_all add: overlapStart_def spawn_def call_def ivanStore_def machine.defs system.defs)

lemma overlap_run:
  "\<exists>s. run overlapSchedule overlapStart = Some s \<and>
     sealLog s = [Sealed nonceC [4], Sealed nonceC [1], Sealed nonceC [3], NewNonce nonceC,
                  Sealed nonceB [2], NewNonce nonceB, Sealed nonceA [0], NewNonce nonceA] \<and>
     map point (goroutines s) = [Done, Done, Done, Done, Done] \<and>
     csMaxEncryptCallsPerNonce s = 2"
proof -
  note st = overlapStart_fields
  have rb: "ReadFull [Inr nonceB, Inr nonceC] (NonceSize ivanCipher) = (Inr nonceB, [Inr nonceC])"
    and rc: "ReadFull [Inr nonceC] (NonceSize ivanCipher) = (Inr nonceC, [])"
    by (simp_all add: ivanCipher_sizes nonceB_def nonceC_def ReadFull_def)
  have le: "\<not> (2 :: int64) \<le>s 0 + 1" "(1 :: int64) + 1 = 2" "\<not> 0 <s (0 :: int64)"
    by (simp_all add: word_sle_eq word_sless_alt)
  from run_counted_seal [of 0 overlapStart] st le
  obtain s1 where s1: "run [0, 0, 0, 0, 0] overlapStart = Some s1"
    "sealLog s1 = [Sealed nonceA [0], NewNonce nonceA]" "encrypted s1 = 1"
    "inEncrypt s1 = 0" "locked s1 = False" "nonce s1 = nonceA"
    "gcm s1 = ivanCipher" "randReader s1 = [Inr nonceB, Inr nonceC]"
    "csMaxEncryptCallsPerNonce s1 = 2"
    "map point (goroutines s1) = [Done, AtIncInFlight, AtIncInFlight, AtIncInFlight, AtIncInFlight]"
    "map data (goroutines s1) = [[0], [1], [2], [3], [4]]"
    using nth_map_point [of 0 overlapStart] by auto
  from run_rotation [of 1 s1 nonceB "[Inr nonceC]"] s1 le rb
  obtain s2 where s2: "run [1, 1, 1, 1, 1, 1, 1, 1, 1] s1 = Some s2"
    "sealLog s2 = [NewNonce nonceB, Sealed nonceA [0], NewNonce nonceA]" "encrypted s2 = 0"
    "inEncrypt s2 = 0" "locked s2 = False" "nonce s2 = nonceB"
    "gcm s2 = ivanCipher" "randReader s2 = [Inr nonceC]"
    "csMaxEncryptCallsPerNonce s2 = 2"
    "map point (goroutines s2) = [Done, AtReenter, AtIncInFlight, AtIncInFlight, AtIncInFlight]"
    "map data (goroutines s2) = [[0], [1], [2], [3], [4]]"
    using nth_map_point [of 1 s1] by auto
  from run_counted_seal [of 2 s2] s2 le
  obtain s3 where s3: "run [2, 2, 2, 2, 2] s2 = Some s3"
    "sealLog s3 = [Sealed nonceB [2], NewNonce nonceB, Sealed nonceA [0], NewNonce nonceA]"
    "encrypted s3 = 1"
    "inEncrypt s3 = 0" "locked s3 = False" "nonce s3 = nonceB"
    "gcm s3 = ivanCipher" "randReader s3 = [Inr nonceC]"
    "csMaxEncryptCallsPerNonce s3 = 2"
    "map point (goroutines s3) = [Done, AtReenter, Done, AtIncInFlight, AtIncInFlight]"
    "map data (goroutines s3) = [[0], [1], [2], [3], [4]]"
    using nth_map_point [of 2 s2] by auto
  from run_rotation [of 3 s3 nonceC "[]"] s3 le rc
  obtain s4 where s4: "run [3, 3, 3, 3, 3, 3, 3, 3, 3] s3 = Some s4"
    "sealLog s4 = [NewNonce nonceC, Sealed nonceB [2], NewNonce nonceB, Sealed nonceA [0],
       NewNonce nonceA]"
    "encrypted s4 = 0"
    "inEncrypt s4 = 0" "locked s4 = False" "nonce s4 = nonceC"
    "gcm s4 = ivanCipher" "randReader s4 = []"
    "csMaxEncryptCallsPerNonce s4 = 2"
    "map point (goroutines s4) = [Done, AtReenter, Done, AtReenter, AtIncInFlight]"
    "map data (goroutines s4) = [[0], [1], [2], [3], [4]]"
    using nth_map_point [of 3 s3] by auto
  from run_reenter_seal [of 3 s4] s4
  obtain s5 where s5: "run [3, 3, 3, 3] s4 = Some s5"
    "sealLog s5 = [Sealed nonceC [3], NewNonce nonceC, Sealed nonceB [2], NewNonce nonceB,
       Sealed nonceA [0], NewNonce nonceA]"
    "encrypted s5 = 0"
    "inEncrypt s5 = 0" "locked s5 = False" "nonce s5 = nonceC"
    "gcm s5 = ivanCipher" "randReader s5 = []"
    "csMaxEncryptCallsPerNonce s5 = 2"
    "map point (goroutines s5) = [Done, AtReenter, Done, Done, AtIncInFlight]"
    "map data (goroutines s5) = [[0], [1], [2], [3], [4]]"
    using nth_map_point [of 3 s4] by auto
  from run_reenter_seal [of 1 s5] s5
  obtain s6 where s6: "run [1, 1, 1, 1] s5 = Some s6"
    "sealLog s6 = [Sealed nonceC [1], Sealed nonceC [3], NewNonce nonceC, Sealed nonceB [2],
       NewNonce nonceB, Sealed nonceA [0], NewNonce nonceA]"
    "encrypted s6 = 0"
    "inEncrypt s6 = 0" "locked s6 = False" "nonce s6 = nonceC"
    "gcm s6 = ivanCipher" "randReader s6 = []"
    "csMaxEncryptCallsPerNonce s6 = 2"
    "map point (goroutines s6) = [Done, Done, Done, Done, AtIncInFlight]"
    "map data (goroutines s6) = [[0], [1], [2], [3], [4]]"
    using nth_map_point [of 1 s5] by auto
  from run_counted_seal [of 4 s6] s6 le
  obtain s7 where s7: "run [4, 4, 4, 4, 4] s6 = Some s7"
    "sealLog s7 = [Sealed nonceC [4], Sealed nonceC [1], Sealed nonceC [3], NewNonce nonceC,
       Sealed nonceB [2], NewNonce nonceB, Sealed nonceA [0], NewNonce nonceA]"
    "csMaxEncryptCallsPerNonce s7 = 2"
    "map point (goroutines s7) = [Done, Done, Done, Done, Done]"
    using nth_map_point [of 4 s6] by auto
  have "run overlapSchedule overlapStart = Some s7"
    unfolding overlapSchedule_def run_append
    by (simp only: s1(1) s2(1) s3(1) s4(1) s5(1) s6(1) s7(1) option.case)
  with s7 show ?thesis
    by simp
qed


section \<open>The three ways through \<^verbatim>\<open>encrypt\<close>, in closed form\<close>

lemma encrypt_counted:
  assumes "aeadContract (gcm cs)" and "wellFormed cs"
    and "\<not> csMaxEncryptCallsPerNonce cs \<le>s encrypted cs + 1"
  shows "encrypt cs P =
    Some (cs\<lparr>encrypted := encrypted cs + 1, sealLog := Sealed (nonce cs) P # sealLog cs\<rparr>,
          Returns (Inr (nonce cs @ Seal (gcm cs) (nonce cs) P)))"
proof -
  let ?c = "cs\<lparr>inEncrypt := inEncrypt cs + 1, encrypted := encrypted cs + 1\<rparr>"
  have "sealInto ?c P = (?c\<lparr>sealLog := Sealed (nonce ?c) P # sealLog ?c, inEncrypt := inEncrypt ?c - 1\<rparr>,
     Returns (Inr (nonce ?c @ Seal (gcm ?c) (nonce ?c) P)))"
    using assms(1,2) by (intro sealInto_eq) (simp_all add: wellFormed_def aeadContract_def)
  then show ?thesis
    by (simp add: encrypt_below [OF assms(3)])
qed

lemma encrypt_rotating:
  assumes "aeadContract (gcm cs)" and "wellFormed cs" and "idle cs"
    and "encrypted cs + 1 = csMaxEncryptCallsPerNonce cs"
    and "ReadFull (randReader cs) (NonceSize (gcm cs)) = (Inr n, r)"
  shows "encrypt cs P =
    Some (cs\<lparr>encrypted := 0, nonce := n, randReader := r,
             sealLog := Sealed n P # NewNonce n # sealLog cs\<rparr>,
          Returns (Inr (n @ Seal (gcm cs) n P)))"
proof -
  let ?g = "cs\<lparr>encrypted := encrypted cs + 1, locked := True, randReader := r, nonce := n,
      encrypted := 0, sealLog := NewNonce n # sealLog cs\<rparr>"
  let ?c = "Unlock ?g\<lparr>inEncrypt := inEncrypt ?g + 1\<rparr>"
  have n: "length n = NonceSize (gcm cs)"
    using assms(5) by (rule ReadFull_length)
  have g: "generateNewNonce (cs\<lparr>encrypted := encrypted cs + 1, locked := True\<rparr>) = (?g, None)"
    using assms(5) by (simp add: generateNewNonce_def)
  have "sealInto ?c P = (?c\<lparr>sealLog := Sealed (nonce ?c) P # sealLog ?c, inEncrypt := inEncrypt ?c - 1\<rparr>,
     Returns (Inr (nonce ?c @ Seal (gcm ?c) (nonce ?c) P)))"
    using assms(1,2) n by (intro sealInto_eq) (simp_all add: wellFormed_def aeadContract_def Unlock_def)
  moreover have "locked cs = False"
    using assms(3) by (simp add: idle_def)
  ultimately show ?thesis
    using assms(3) g by (simp add: encrypt_rotate [OF assms(4)] idle_def Unlock_def)
qed

lemma encrypt_rotation_fails:
  assumes "idle cs" and "encrypted cs + 1 = csMaxEncryptCallsPerNonce cs"
    and "ReadFull (randReader cs) (NonceSize (gcm cs)) = (Inl err, r)"
  shows "encrypt cs P =
    Some (cs\<lparr>encrypted := encrypted cs + 1, randReader := r\<rparr>, Returns (Inl err))"
proof -
  have "generateNewNonce (cs\<lparr>encrypted := encrypted cs + 1, locked := True\<rparr>)
      = (cs\<lparr>encrypted := encrypted cs + 1, locked := True, randReader := r\<rparr>, Some err)"
    using assms(3) by (simp add: generateNewNonce_def)
  moreover have "locked cs = False"
    using assms(1) by (simp add: idle_def)
  ultimately show ?thesis
    using assms(1) by (simp add: encrypt_rotate [OF assms(2)] idle_def Unlock_def)
qed

lemma default_max_positive: "0 <s csDefaultMaxEncryptCallsPerNonce"
  by (simp add: csDefaultMaxEncryptCallsPerNonce_def word_sless_alt)

text \<open>
  C2, as the code has it. For calls of \<^verbatim>\<open>encrypt\<close> that do not overlap, on a store
  that \<^verbatim>\<open>NewCryptoStore\<close> built with a positive maximum and as long as every call
  so far returned a record: a call seals either with a count below the maximum,
  under the nonce it found and leaving the counter one higher, or with a count
  equal to the maximum, under the nonce that this very call installed, the
  counter being reset to zero with the installation; and no nonce serves more
  seals than the maximum.
\<close>

theorem sequential_nonce_use:
  assumes "NewCryptoStore lib env maxCalls rnd key = Inr cs0" and "0 <s maxCalls"
    and "encryptAll cs0 ds = Some (cs, recs)"
    and "encrypt cs d = Some (cs', Returns (Inr r))"
  shows "(encrypted cs + 1 <s maxCalls \<and> nonce cs' = nonce cs \<and>
            encrypted cs' = encrypted cs + 1 \<and> sealLog cs' = Sealed (nonce cs) d # sealLog cs
          \<or> encrypted cs + 1 = maxCalls \<and> encrypted cs' = 0 \<and>
            sealLog cs' = Sealed (nonce cs') d # NewNonce (nonce cs') # sealLog cs) \<and>
         nonceUseBounded cs'"
proof -
  have "seqInv cs0"
    using assms(1,2) by (rule seqInv_new)
  then have i: "seqInv cs"
    using assms(3) by (rule seqInv_encryptAll)
  have "csMaxEncryptCallsPerNonce cs0 = maxCalls"
    using NewCryptoStore_Inr [OF assms(1)] by auto
  moreover have "csMaxEncryptCallsPerNonce cs = csMaxEncryptCallsPerNonce cs0"
    using assms(3) by (rule encryptAll_max)
  ultimately have m: "csMaxEncryptCallsPerNonce cs = maxCalls"
    by simp
  show ?thesis
  proof (cases "encrypted cs + 1 = csMaxEncryptCallsPerNonce cs")
    case True
    from seqInv_rotate [OF i True assms(4)] True m show ?thesis
      by (simp add: seqInv_def)
  next
    case False
    from seqInv_below [OF i False assms(4)] m show ?thesis
      by (simp add: seqInv_def)
  qed
qed

theorem sequential_nonce_use_witness:
  "NewCryptoStore toyLib [] 2 [Inr nonceA, Inr nonceB] ''ivan'' = Inr (ivanStore [Inr nonceB]) \<and>
   0 <s (2 :: int64) \<and>
   (\<exists>cs cs'.
      encryptAll (ivanStore [Inr nonceB]) [[0]] = Some (cs, [nonceA @ Seal ivanCipher nonceA [0]]) \<and>
      encrypt cs [1] = Some (cs', Returns (Inr (nonceB @ Seal ivanCipher nonceB [1]))) \<and>
      encrypted cs + 1 = 2 \<and> encrypted cs' = 0 \<and>
      sealLog cs' = [Sealed nonceB [1], NewNonce nonceB, Sealed nonceA [0], NewNonce nonceA] \<and>
      nonceUseBounded cs')"
proof -
  let ?s0 = "ivanStore [Inr nonceB]"
  let ?s1 = "?s0\<lparr>encrypted := encrypted ?s0 + 1, sealLog := Sealed (nonce ?s0) [0] # sealLog ?s0\<rparr>"
  let ?s2 = "?s1\<lparr>encrypted := 0, nonce := nonceB, randReader := [],
      sealLog := Sealed nonceB [1] # NewNonce nonceB # sealLog ?s1\<rparr>"
  have new: "NewCryptoStore toyLib [] 2 [Inr nonceA, Inr nonceB] ''ivan'' = Inr ?s0"
    by (rule ivanStore_new)
  have pos: "0 <s (2 :: int64)"
    by (simp add: word_sless_alt)
  have e1: "encrypt ?s0 [0] = Some (?s1, Returns (Inr (nonce ?s0 @ Seal (gcm ?s0) (nonce ?s0) [0])))"
    by (rule encrypt_counted [OF ivanStore_ok(1,2)]) (simp add: ivanStore_def word_sle_eq)
  then have a: "encryptAll ?s0 [[0]] = Some (?s1, [nonceA @ Seal ivanCipher nonceA [0]])"
    by (simp add: ivanStore_def)
  have w1: "aeadContract (gcm ?s1)" "wellFormed ?s1" "idle ?s1"
    using ivanStore_ok [of "[Inr nonceB]"] by (simp_all add: wellFormed_def idle_def)
  have "encrypt ?s1 [1] = Some (?s1\<lparr>encrypted := 0, nonce := nonceB, randReader := [],
             sealLog := Sealed nonceB [1] # NewNonce nonceB # sealLog ?s1\<rparr>,
          Returns (Inr (nonceB @ Seal (gcm ?s1) nonceB [1])))"
    by (rule encrypt_rotating [OF w1])
       (simp_all add: ivanStore_def ivanCipher_sizes nonceB_def ReadFull_def)
  then have e2: "encrypt ?s1 [1] = Some (?s2, Returns (Inr (nonceB @ Seal ivanCipher nonceB [1])))"
    by (simp add: ivanStore_def)
  from sequential_nonce_use [OF new pos a e2] have "nonceUseBounded ?s2"
    by simp
  moreover have "encrypted ?s1 + 1 = 2" "encrypted ?s2 = 0"
    "sealLog ?s2 = [Sealed nonceB [1], NewNonce nonceB, Sealed nonceA [0], NewNonce nonceA]"
    by (simp_all add: ivanStore_def)
  ultimately show ?thesis
    using new pos a e2 by blast
qed

text \<open>
  C2 as stated fails when callers overlap. With the maximum 2 and the schedule
  \<open>overlapSchedule\<close>, all five calls return and the third nonce has sealed three
  payloads: the caller that installed the second nonce seals under the third.
\<close>

theorem overlapping_callers_counterexample:
  "NewCryptoStore toyLib [] 2 [Inr nonceA, Inr nonceB, Inr nonceC] ''ivan''
     = Inr (ivanStore [Inr nonceB, Inr nonceC]) \<and>
   overlapStart = spawn (ivanStore [Inr nonceB, Inr nonceC]) [[0], [1], [2], [3], [4]] \<and>
   map_option sealLog (run overlapSchedule overlapStart) =
     Some [Sealed nonceC [4], Sealed nonceC [1], Sealed nonceC [3], NewNonce nonceC,
           Sealed nonceB [2], NewNonce nonceB, Sealed nonceA [0], NewNonce nonceA] \<and>
   map_option (map point \<circ> goroutines) (run overlapSchedule overlapStart) =
     Some [Done, Done, Done, Done, Done] \<and>
   map_option csMaxEncryptCallsPerNonce (run overlapSchedule overlapStart) = Some 2 \<and>
   map_option (sealRuns \<circ> sealLog) (run overlapSchedule overlapStart) = Some [3, 1, 1, 0] \<and>
   map_option nonceUseBounded (run overlapSchedule overlapStart) = Some False"
proof -
  from overlap_run obtain s where s: "run overlapSchedule overlapStart = Some s"
    "sealLog s = [Sealed nonceC [4], Sealed nonceC [1], Sealed nonceC [3], NewNonce nonceC,
                  Sealed nonceB [2], NewNonce nonceB, Sealed nonceA [0], NewNonce nonceA]"
    "map point (goroutines s) = [Done, Done, Done, Done, Done]"
    "csMaxEncryptCallsPerNonce s = 2"
    by (elim exE conjE)
  have "sealRuns (sealLog s) = [3, 1, 1, 0]"
    by (simp add: s(2))
  moreover from this have "\<not> nonceUseBounded s"
    by (simp add: nonceUseBounded_def s(4))
  ultimately show ?thesis
    using s by (simp add: ivanStore_new overlapStart_def)
qed

section \<open>After a failed rotation\<close>

lemma sint_max_int64: "sint (x :: int64) = 2 ^ 63 - 1 \<Longrightarrow> x + 1 = 0x8000000000000000"
proof -
  assume "sint x = 2 ^ 63 - 1"
  then have "sint x = sint (0x7FFFFFFFFFFFFFFF :: int64)"
    by simp
  then have "x = 0x7FFFFFFFFFFFFFFF"
    by (simp only: signed_word_eqI)
  then show ?thesis
    by simp
qed

lemma above_max_wraps:
  assumes "m \<le>s (x :: int64)" and "\<not> m \<le>s x + 1"
  shows "x + 1 = 0x8000000000000000"
proof (rule sint_max_int64, rule ccontr)
  assume "sint x \<noteq> 2 ^ 63 - 1"
  then have "sint (x + 1) = sint x + 1"
    by (rule sint_succ_int64)
  with assms show False
    by (simp add: word_sle_eq)
qed

lemma above_max_not_max:
  assumes "m \<le>s (x :: int64)" and "m \<noteq> 0x8000000000000000"
  shows "x + 1 \<noteq> m"
proof
  assume e: "x + 1 = m"
  show False
  proof (cases "sint x = 2 ^ 63 - 1")
    case True
    then show ?thesis
      using e assms(2) sint_max_int64 by blast
  next
    case False
    then have "sint (x + 1) = sint x + 1"
      by (rule sint_succ_int64)
    with assms(1) e show ?thesis
      by (simp add: word_sle_eq)
  qed
qed

text \<open>With the counter at or above the maximum, a call never reaches
  \<^verbatim>\<open>generateNewNonce\<close>: it takes the \<^verbatim>\<open>goto\<close> until the counter wraps, and then
  seals under the nonce that is there.\<close>

lemma encrypt_above_max:
  assumes "csMaxEncryptCallsPerNonce cs \<le>s encrypted cs" and "\<not> locked cs"
    and "csMaxEncryptCallsPerNonce cs \<noteq> 0x8000000000000000"
  shows "encrypt cs P =
    Some (sealInto (cs\<lparr>inEncrypt := inEncrypt cs + 1, encrypted := 0x8000000000000000\<rparr>) P)"
  using assms
proof (induction cs rule: encrypt_cases_induct)
  case (below cs)
  from above_max_wraps [OF below(2,1)] show ?case
    by (simp add: encrypt_below [OF below(1)])
next
  case (rotate cs)
  with above_max_not_max [OF rotate(2,4)] show ?case
    by simp
next
  case (retry cs)
  have "encrypt cs P = encrypt (cs\<lparr>encrypted := encrypted cs + 1, locked := False\<rparr>) P"
    using retry(1,2,5) by (simp add: encrypt_retry)
  also have "\<dots> = Some (sealInto
      (cs\<lparr>encrypted := encrypted cs + 1, locked := False,
          inEncrypt := inEncrypt cs + 1, encrypted := 0x8000000000000000\<rparr>) P)"
    using retry(3) retry(1,6) by simp
  also have "cs\<lparr>encrypted := encrypted cs + 1, locked := False,
          inEncrypt := inEncrypt cs + 1, encrypted := 0x8000000000000000\<rparr>
      = cs\<lparr>inEncrypt := inEncrypt cs + 1, encrypted := 0x8000000000000000\<rparr>"
    using retry(5) by simp
  finally show ?case .
qed

text \<open>
  C5 at a concrete run, the maximum being 2 and the random source failing once
  and working afterwards. The first call seals. The second call is the rotator:
  it returns the error of the random source, seals nothing and leaves the mutex
  free, with the counter at the maximum. The third call does not rotate,
  although the random source would now deliver: it comes back with a record
  under the first nonce, the counter wrapped to \<open>- 2 ^ 63\<close> and the random source
  untouched.
\<close>

theorem failed_rotation_is_not_retried:
  "\<exists>cs1 cs2 cs3.
     encrypt (ivanStore [Inl ''entropy source failed'', Inr nonceB]) [0] =
       Some (cs1, Returns (Inr (nonceA @ Seal ivanCipher nonceA [0]))) \<and>
     encrypt cs1 [1] = Some (cs2, Returns (Inl (ErrExternal ''entropy source failed''))) \<and>
     sealLog cs2 = sealLog cs1 \<and> \<not> locked cs2 \<and> inEncrypt cs2 = 0 \<and>
     encrypted cs2 = csMaxEncryptCallsPerNonce cs2 \<and> randReader cs2 = [Inr nonceB] \<and>
     encrypt cs2 [2] = Some (cs3, Returns (Inr (nonceA @ Seal ivanCipher nonceA [2]))) \<and>
     nonce cs3 = nonceA \<and> randReader cs3 = [Inr nonceB] \<and>
     sealLog cs3 = Sealed nonceA [2] # sealLog cs2 \<and>
     sint (encrypted cs3) = - (2 ^ 63)"
proof -
  let ?s0 = "ivanStore [Inl ''entropy source failed'', Inr nonceB]"
  let ?s1 = "?s0\<lparr>encrypted := encrypted ?s0 + 1, sealLog := Sealed (nonce ?s0) [0] # sealLog ?s0\<rparr>"
  let ?s2 = "?s1\<lparr>encrypted := encrypted ?s1 + 1, randReader := [Inr nonceB]\<rparr>"
  let ?c = "?s2\<lparr>inEncrypt := inEncrypt ?s2 + 1, encrypted := 0x8000000000000000\<rparr>"
  let ?s3 = "?c\<lparr>sealLog := Sealed (nonce ?c) [2] # sealLog ?c, inEncrypt := inEncrypt ?c - 1\<rparr>"
  have e1: "encrypt ?s0 [0] = Some (?s1, Returns (Inr (nonce ?s0 @ Seal (gcm ?s0) (nonce ?s0) [0])))"
    by (rule encrypt_counted [OF ivanStore_ok(1,2)]) (simp add: ivanStore_def word_sle_eq)
  have w1: "idle ?s1"
    using ivanStore_ok(3) [of "[Inl ''entropy source failed'', Inr nonceB]"] by (simp add: idle_def)
  have e2: "encrypt ?s1 [1] = Some (?s2, Returns (Inl (ErrExternal ''entropy source failed'')))"
    by (rule encrypt_rotation_fails [OF w1]) (simp_all add: ivanStore_def ivanCipher_sizes ReadFull_def)
  have "encrypt ?s2 [2] = Some (sealInto ?c [2])"
    by (rule encrypt_above_max) (simp_all add: ivanStore_def word_sle_eq)
  moreover have "sealInto ?c [2] = (?s3, Returns (Inr (nonce ?c @ Seal (gcm ?c) (nonce ?c) [2])))"
    using ivanCipher_contract
    by (intro sealInto_eq) (simp_all add: ivanStore_def aeadContract_def ivanCipher_sizes nonceA_def)
  ultimately have e3: "encrypt ?s2 [2] = Some (?s3, Returns (Inr (nonce ?c @ Seal (gcm ?c) (nonce ?c) [2])))"
    by simp
  have "encrypt ?s0 [0] = Some (?s1, Returns (Inr (nonceA @ Seal ivanCipher nonceA [0])))"
    using e1 by (simp add: ivanStore_def)
  moreover have "encrypt ?s2 [2] = Some (?s3, Returns (Inr (nonceA @ Seal ivanCipher nonceA [2])))"
    using e3 by (simp add: ivanStore_def)
  moreover have "sealLog ?s2 = sealLog ?s1" "\<not> locked ?s2" "inEncrypt ?s2 = 0"
    "encrypted ?s2 = csMaxEncryptCallsPerNonce ?s2" "randReader ?s2 = [Inr nonceB]"
    "nonce ?s3 = nonceA" "randReader ?s3 = [Inr nonceB]"
    "sealLog ?s3 = Sealed nonceA [2] # sealLog ?s2" "sint (encrypted ?s3) = - (2 ^ 63)"
    by (simp_all add: ivanStore_def)
  ultimately show ?thesis
    using e2 by blast
qed

section \<open>Construction\<close>

text \<open>
  C7. \<^verbatim>\<open>NewCryptoStore\<close> fails with \<open>ErrCryptoStoreRequiresKey\<close> exactly when the
  key parameter and the environment variable are both empty. With an empty key
  parameter and a non-empty environment variable the store is built from the
  variable's value, and the construction succeeds whenever the cipher can be
  made from the digest and the random source delivers the first nonce.
\<close>

theorem NewCryptoStore_requires_key:
  "(NewCryptoStore lib env maxCalls rnd key = Inl ErrCryptoStoreRequiresKey
      \<longleftrightarrow> key = [] \<and> env = []) \<and>
   (env \<noteq> [] \<longrightarrow>
      chacha20poly1305_New lib (sha256_Sum lib (map of_char env)) = Inr g \<longrightarrow>
      ReadFull rnd (NonceSize g) = (Inr n, r) \<longrightarrow>
      NewCryptoStore lib env maxCalls rnd [] =
        Inr \<lparr>inEncrypt = 0, encrypted = 0, locked = False, gcm = g, nonce = n,
             nonceSize = NonceSize g, cryptoOverhead = Overhead g,
             csMaxEncryptCallsPerNonce = maxCalls, randReader = r, sealLog = [NewNonce n]\<rparr>)"
proof -
  have "ReadAtLeast got rnd k \<noteq> (Inl ErrCryptoStoreRequiresKey, r')" for got k r'
    by (induction got rnd k rule: ReadAtLeast.induct) (auto split: if_splits)
  then have "ReadFull rnd k \<noteq> (Inl ErrCryptoStoreRequiresKey, r')" for k r'
    by (simp add: ReadFull_def)
  then have "NewCryptoStore lib env maxCalls rnd key = Inl ErrCryptoStoreRequiresKey
      \<longleftrightarrow> key = [] \<and> env = []"
    by (auto simp: NewCryptoStore_def generateNewNonce_def Let_def
        split: sum.splits prod.splits if_splits)
  moreover have "env \<noteq> [] \<longrightarrow>
      chacha20poly1305_New lib (sha256_Sum lib (map of_char env)) = Inr g \<longrightarrow>
      ReadFull rnd (NonceSize g) = (Inr n, r) \<longrightarrow>
      NewCryptoStore lib env maxCalls rnd [] =
        Inr \<lparr>inEncrypt = 0, encrypted = 0, locked = False, gcm = g, nonce = n,
             nonceSize = NonceSize g, cryptoOverhead = Overhead g,
             csMaxEncryptCallsPerNonce = maxCalls, randReader = r, sealLog = [NewNonce n]\<rparr>"
    by (simp add: NewCryptoStore_def generateNewNonce_def)
  ultimately show ?thesis
    by blast
qed

theorem NewCryptoStore_requires_key_witness:
  "NewCryptoStore toyLib [] 2 [Inr nonceA] [] = Inl ErrCryptoStoreRequiresKey \<and>
   ''ivan'' \<noteq> [] \<and>
   chacha20poly1305_New toyLib (sha256_Sum toyLib (map of_char ''ivan'')) = Inr ivanCipher \<and>
   ReadFull [Inr nonceA] (NonceSize ivanCipher) = (Inr nonceA, []) \<and>
   NewCryptoStore toyLib ''ivan'' 2 [Inr nonceA] [] = Inr (ivanStore [])"
proof -
  have c: "chacha20poly1305_New toyLib (sha256_Sum toyLib (map of_char ''ivan'')) = Inr ivanCipher"
    by (simp add: toyLib_def ivanCipher_def)
  have r: "ReadFull [Inr nonceA] (NonceSize ivanCipher) = (Inr nonceA, [])"
    by (simp add: ivanCipher_sizes nonceA_def ReadFull_def)
  have k: "''ivan'' \<noteq> []"
    by simp
  from NewCryptoStore_requires_key [of toyLib "[]" 2 "[Inr nonceA]" "[]"]
  have "NewCryptoStore toyLib [] 2 [Inr nonceA] [] = Inl ErrCryptoStoreRequiresKey"
    by simp
  moreover from NewCryptoStore_requires_key [of toyLib "''ivan''" 2 "[Inr nonceA]" "[]" ivanCipher nonceA "[]"] c r
  have "NewCryptoStore toyLib ''ivan'' 2 [Inr nonceA] [] = Inr (ivanStore [])"
    by (simp add: ivanStore_def ivanCipher_sizes)
  ultimately show ?thesis
    using c r k by blast
qed

section \<open>The read paths\<close>

lemma afterRead_short:
  assumes "a < length h" and "Data (h ! a) = Some d" and "length d < nonceSize cs"
  shows "afterRead cs ((Some a, None), u, h) = (Panics ''slice bounds out of range'', u, h)"
  using assms by (simp add: afterRead_def decryptedMsg_def decrypt_def contents_def)

text \<open>
  C6. When the wrapped store returns, without error, a message whose payload is
  a non-nil slice shorter than the nonce (a slice of length zero included),
  \<^verbatim>\<open>Lookup\<close>, \<^verbatim>\<open>FirstMsg\<close> and \<^verbatim>\<open>LastMsg\<close> call \<^verbatim>\<open>decrypt\<close> and stop in the
  panic of its slice expression.
\<close>

theorem short_record_read_panics:
  assumes "a < length h" and "Data (h ! a) = Some d" and "length d < nonceSize cs"
  shows "(msLookup ms seq w = ((Some a, None), u, h) \<longrightarrow>
            Lookup ms cs seq w = (Panics ''slice bounds out of range'', u, h)) \<and>
         (msFirstMsg ms w = ((Some a, None), u, h) \<longrightarrow>
            FirstMsg ms cs w = (Panics ''slice bounds out of range'', u, h)) \<and>
         (msLastMsg ms w = ((Some a, None), u, h) \<longrightarrow>
            LastMsg ms cs w = (Panics ''slice bounds out of range'', u, h))"
  using afterRead_short [OF assms, of u] by (simp add: Lookup_def FirstMsg_def LastMsg_def)

theorem short_record_read_panics_witness:
  "(0 :: nat) < length [\<lparr>Sequence = 1, Data = Some [7, 7, 7], Timestamp = 0\<rparr>] \<and>
   Data ([\<lparr>Sequence = 1, Data = Some [7, 7, 7], Timestamp = 0\<rparr>] ! 0) = Some [7, 7, 7] \<and>
   length [7 :: byte, 7, 7] < nonceSize (ivanStore []) \<and>
   msLookup memStore 1 ((), [\<lparr>Sequence = 1, Data = Some [7, 7, 7], Timestamp = 0\<rparr>]) =
     ((Some 0, None), (), [\<lparr>Sequence = 1, Data = Some [7, 7, 7], Timestamp = 0\<rparr>]) \<and>
   Lookup memStore (ivanStore []) 1 ((), [\<lparr>Sequence = 1, Data = Some [7, 7, 7], Timestamp = 0\<rparr>]) =
     (Panics ''slice bounds out of range'', (),
      [\<lparr>Sequence = 1, Data = Some [7, 7, 7], Timestamp = 0\<rparr>]) \<and>
   FirstMsg memStore (ivanStore []) ((), [\<lparr>Sequence = 1, Data = Some [7, 7, 7], Timestamp = 0\<rparr>]) =
     (Panics ''slice bounds out of range'', (),
      [\<lparr>Sequence = 1, Data = Some [7, 7, 7], Timestamp = 0\<rparr>]) \<and>
   LastMsg memStore (ivanStore []) ((), [\<lparr>Sequence = 1, Data = Some [7, 7, 7], Timestamp = 0\<rparr>]) =
     (Panics ''slice bounds out of range'', (),
      [\<lparr>Sequence = 1, Data = Some [7, 7, 7], Timestamp = 0\<rparr>])"
proof -
  let ?h = "[\<lparr>Sequence = 1, Data = Some [7, 7, 7], Timestamp = 0\<rparr>] :: unit heap"
  have a: "0 < length ?h" "Data (?h ! 0) = Some [7, 7, 7]" "length [7 :: byte, 7, 7] < nonceSize (ivanStore [])"
    by (simp_all add: ivanStore_def)
  have m: "msLookup memStore 1 ((), ?h) = ((Some 0, None), (), ?h)"
    "msFirstMsg memStore ((), ?h) = ((Some 0, None), (), ?h)"
    "msLastMsg memStore ((), ?h) = ((Some 0, None), (), ?h)"
    by (simp_all add: memStore_def)
  from short_record_read_panics [OF a, where ms = memStore and seq = 1 and w = "((), ?h)" and u = "()"] m a
  show ?thesis
    by simp
qed

text \<open>
  C4 at the input where the code leaves it. A non-nil payload of length zero
  goes through \<^verbatim>\<open>Store\<close> unencrypted, as the claim says; the message that the
  wrapped store then returns has a payload that is empty and not nil, the test
  \<^verbatim>\<open>m.Data == nil\<close> lets it through to \<^verbatim>\<open>decrypt\<close>, and all three read paths
  panic instead of returning it unchanged.
\<close>

theorem empty_payload_read_panics:
  "len (Some []) = 0 \<and>
   Store memStore (Some []) (ivanStore [], (), []) =
     Some (Returns (1, None), ivanStore [], (), [\<lparr>Sequence = 1, Data = Some [], Timestamp = 0\<rparr>]) \<and>
   Lookup memStore (ivanStore []) 1 ((), [\<lparr>Sequence = 1, Data = Some [], Timestamp = 0\<rparr>]) =
     (Panics ''slice bounds out of range'', (), [\<lparr>Sequence = 1, Data = Some [], Timestamp = 0\<rparr>]) \<and>
   FirstMsg memStore (ivanStore []) ((), [\<lparr>Sequence = 1, Data = Some [], Timestamp = 0\<rparr>]) =
     (Panics ''slice bounds out of range'', (), [\<lparr>Sequence = 1, Data = Some [], Timestamp = 0\<rparr>]) \<and>
   LastMsg memStore (ivanStore []) ((), [\<lparr>Sequence = 1, Data = Some [], Timestamp = 0\<rparr>]) =
     (Panics ''slice bounds out of range'', (), [\<lparr>Sequence = 1, Data = Some [], Timestamp = 0\<rparr>])"
  by (simp add: len_def Store_def memStore_def Lookup_def FirstMsg_def LastMsg_def afterRead_def
      decryptedMsg_def decrypt_def contents_def ivanStore_def)

text \<open>The part of C4 that the code keeps: a nil payload and an absent message
  come back as the wrapped store returned them.\<close>

lemma read_passes_nil:
  "afterRead cs ((None, err), u, h) = (Returns (None, err), u, h)"
  "a < length h \<Longrightarrow> Data (h ! a) = None \<Longrightarrow>
     afterRead cs ((Some a, err), u, h) = (Returns (Some a, err), u, h)"
  by (simp_all add: afterRead_def)

lemma afterRead_copy:
  assumes "a < length h" and "Data (h ! a) = Some d"
  shows "\<exists>res h'. afterRead cs ((Some a, None), u, h) = (res, u, h') \<and> take (length h) h' = h \<and>
     (\<forall>b err. res = Returns (Some b, err) \<longrightarrow>
        err = None \<and> b = length h \<and> length h' = Suc (length h) \<and>
        Sequence (h' ! b) = Sequence (h ! a) \<and> Timestamp (h' ! b) = Timestamp (h ! a) \<and>
        MsgProto.more (h' ! b) = MsgProto.more (h ! a) \<and>
        (\<exists>dd. Open (gcm cs) (take (nonceSize cs) d) (drop (nonceSize cs) d) = Inr dd \<and>
           Data (h' ! b) = appendToNil dd)) \<and>
     (\<forall>dd. nonceSize cs \<le> length d \<longrightarrow>
        Open (gcm cs) (take (nonceSize cs) d) (drop (nonceSize cs) d) = Inr dd \<longrightarrow>
        res = Returns (Some (length h), None) \<and> h' = h @ [(h ! a)\<lparr>Data := appendToNil dd\<rparr>]) \<and>
     (\<forall>msg. nonceSize cs \<le> length d \<longrightarrow>
        Open (gcm cs) (take (nonceSize cs) d) (drop (nonceSize cs) d) = Inl msg \<longrightarrow>
        res = Returns (None, Some (ErrExternal msg)) \<and> h' = h)"
  using assms
  by (auto simp: afterRead_def decryptedMsg_def decrypt_def contents_def
      split: sum.splits)

text \<open>A record that the cipher rejects: the read path returns no message and
  the error, and allocates nothing.\<close>

lemma read_rejected_record:
  assumes "a < length h" and "Data (h ! a) = Some d" and "nonceSize cs \<le> length d"
    and "Open (gcm cs) (take (nonceSize cs) d) (drop (nonceSize cs) d) = Inl msg"
  shows "afterRead cs ((Some a, None), u, h) = (Returns (None, Some (ErrExternal msg)), u, h)"
  using assms by (simp add: afterRead_def decryptedMsg_def decrypt_def contents_def)

text \<open>
  C10. When the wrapped store returns, without error, a message with a payload,
  each of \<^verbatim>\<open>Lookup\<close>, \<^verbatim>\<open>FirstMsg\<close> and \<^verbatim>\<open>LastMsg\<close> leaves the state of the wrapped
  store and every object of the heap as they are. When \<^verbatim>\<open>Open\<close> accepts the
  stored payload, the read path returns, with no error, the address of a new
  object that is the stored message with its payload replaced by the output of
  \<^verbatim>\<open>Open\<close>; when \<^verbatim>\<open>Open\<close> rejects it, the read path returns no message and the
  error, and allocates nothing. A message that is returned is always such a
  new object: its fields other than the payload are those of the stored
  message.
\<close>

theorem read_decrypts_into_copy:
  assumes "a < length h" and "Data (h ! a) = Some d"
    and "rd = Lookup ms cs seq w \<and> msLookup ms seq w = ((Some a, None), u, h) \<or>
         rd = FirstMsg ms cs w \<and> msFirstMsg ms w = ((Some a, None), u, h) \<or>
         rd = LastMsg ms cs w \<and> msLastMsg ms w = ((Some a, None), u, h)"
  shows "\<exists>res h'. rd = (res, u, h') \<and> take (length h) h' = h \<and>
     (\<forall>b err. res = Returns (Some b, err) \<longrightarrow>
        err = None \<and> b = length h \<and> length h' = Suc (length h) \<and>
        Sequence (h' ! b) = Sequence (h ! a) \<and> Timestamp (h' ! b) = Timestamp (h ! a) \<and>
        MsgProto.more (h' ! b) = MsgProto.more (h ! a) \<and>
        (\<exists>dd. Open (gcm cs) (take (nonceSize cs) d) (drop (nonceSize cs) d) = Inr dd \<and>
           Data (h' ! b) = appendToNil dd)) \<and>
     (\<forall>dd. nonceSize cs \<le> length d \<longrightarrow>
        Open (gcm cs) (take (nonceSize cs) d) (drop (nonceSize cs) d) = Inr dd \<longrightarrow>
        res = Returns (Some (length h), None) \<and> h' = h @ [(h ! a)\<lparr>Data := appendToNil dd\<rparr>]) \<and>
     (\<forall>msg. nonceSize cs \<le> length d \<longrightarrow>
        Open (gcm cs) (take (nonceSize cs) d) (drop (nonceSize cs) d) = Inl msg \<longrightarrow>
        res = Returns (None, Some (ErrExternal msg)) \<and> h' = h)"
proof -
  from assms(3) have "rd = afterRead cs ((Some a, None), u, h)"
    by (auto simp: Lookup_def FirstMsg_def LastMsg_def)
  with afterRead_copy [OF assms(1,2), of cs u] show ?thesis
    by simp
qed

theorem read_decrypts_into_copy_witness:
  "(0 :: nat) < length [\<lparr>Sequence = 1, Data = Some (nonceA @ Seal ivanCipher nonceA [1, 2, 3]), Timestamp = 5\<rparr>] \<and>
   Data ([\<lparr>Sequence = 1, Data = Some (nonceA @ Seal ivanCipher nonceA [1, 2, 3]), Timestamp = 5\<rparr>] ! 0)
     = Some (nonceA @ Seal ivanCipher nonceA [1, 2, 3]) \<and>
   nonceSize (ivanStore []) \<le> length (nonceA @ Seal ivanCipher nonceA [1, 2, 3]) \<and>
   Open (gcm (ivanStore [])) (take (nonceSize (ivanStore [])) (nonceA @ Seal ivanCipher nonceA [1, 2, 3]))
       (drop (nonceSize (ivanStore [])) (nonceA @ Seal ivanCipher nonceA [1, 2, 3])) = Inr [1, 2, 3] \<and>
   msLookup memStore 1
       ((), [\<lparr>Sequence = 1, Data = Some (nonceA @ Seal ivanCipher nonceA [1, 2, 3]), Timestamp = 5\<rparr>]) =
     ((Some 0, None), (),
      [\<lparr>Sequence = 1, Data = Some (nonceA @ Seal ivanCipher nonceA [1, 2, 3]), Timestamp = 5\<rparr>]) \<and>
   msFirstMsg memStore
       ((), [\<lparr>Sequence = 1, Data = Some (nonceA @ Seal ivanCipher nonceA [1, 2, 3]), Timestamp = 5\<rparr>]) =
     ((Some 0, None), (),
      [\<lparr>Sequence = 1, Data = Some (nonceA @ Seal ivanCipher nonceA [1, 2, 3]), Timestamp = 5\<rparr>]) \<and>
   msLastMsg memStore
       ((), [\<lparr>Sequence = 1, Data = Some (nonceA @ Seal ivanCipher nonceA [1, 2, 3]), Timestamp = 5\<rparr>]) =
     ((Some 0, None), (),
      [\<lparr>Sequence = 1, Data = Some (nonceA @ Seal ivanCipher nonceA [1, 2, 3]), Timestamp = 5\<rparr>]) \<and>
   Lookup memStore (ivanStore []) 1
       ((), [\<lparr>Sequence = 1, Data = Some (nonceA @ Seal ivanCipher nonceA [1, 2, 3]), Timestamp = 5\<rparr>]) =
     (Returns (Some 1, None), (),
      [\<lparr>Sequence = 1, Data = Some (nonceA @ Seal ivanCipher nonceA [1, 2, 3]), Timestamp = 5\<rparr>,
       \<lparr>Sequence = 1, Data = Some [1, 2, 3], Timestamp = 5\<rparr>]) \<and>
   FirstMsg memStore (ivanStore [])
       ((), [\<lparr>Sequence = 1, Data = Some (nonceA @ Seal ivanCipher nonceA [1, 2, 3]), Timestamp = 5\<rparr>]) =
     (Returns (Some 1, None), (),
      [\<lparr>Sequence = 1, Data = Some (nonceA @ Seal ivanCipher nonceA [1, 2, 3]), Timestamp = 5\<rparr>,
       \<lparr>Sequence = 1, Data = Some [1, 2, 3], Timestamp = 5\<rparr>]) \<and>
   LastMsg memStore (ivanStore [])
       ((), [\<lparr>Sequence = 1, Data = Some (nonceA @ Seal ivanCipher nonceA [1, 2, 3]), Timestamp = 5\<rparr>]) =
     (Returns (Some 1, None), (),
      [\<lparr>Sequence = 1, Data = Some (nonceA @ Seal ivanCipher nonceA [1, 2, 3]), Timestamp = 5\<rparr>,
       \<lparr>Sequence = 1, Data = Some [1, 2, 3], Timestamp = 5\<rparr>])"
proof -
  let ?d = "nonceA @ Seal ivanCipher nonceA [1, 2, 3]"
  let ?h = "[\<lparr>Sequence = 1, Data = Some ?d, Timestamp = 5\<rparr>] :: unit heap"
  let ?h' = "[\<lparr>Sequence = 1, Data = Some ?d, Timestamp = 5\<rparr>,
       \<lparr>Sequence = 1, Data = Some [1, 2, 3], Timestamp = 5\<rparr>] :: unit heap"
  have a: "0 < length ?h" "Data (?h ! 0) = Some ?d"
    by simp_all
  have m: "msLookup memStore 1 ((), ?h) = ((Some 0, None), (), ?h)"
    "msFirstMsg memStore ((), ?h) = ((Some 0, None), (), ?h)"
    "msLastMsg memStore ((), ?h) = ((Some 0, None), (), ?h)"
    by (simp_all add: memStore_def)
  have n: "nonceSize (ivanStore []) \<le> length ?d"
    by (simp add: ivanStore_def nonceA_def)
  have "Open ivanCipher nonceA (Seal ivanCipher nonceA [1, 2, 3]) = Inr [1, 2, 3]"
    using ivanCipher_contract by (simp add: aeadContract_def ivanCipher_sizes nonceA_def)
  then have o: "Open (gcm (ivanStore [])) (take (nonceSize (ivanStore [])) ?d)
      (drop (nonceSize (ivanStore [])) ?d) = Inr [1, 2, 3]"
    by (simp add: ivanStore_def nonceA_def)
  have x: "?h @ [(?h ! 0)\<lparr>Data := appendToNil [1, 2, 3]\<rparr>] = ?h'"
    by (simp add: appendToNil_def)
  note t = read_decrypts_into_copy [OF a, where ms = memStore and cs = "ivanStore []" and u = "()"
      and w = "((), ?h)"]
  from t [where rd = "Lookup memStore (ivanStore []) 1 ((), ?h)" and seq = 1] m n o
  have 1: "Lookup memStore (ivanStore []) 1 ((), ?h) = (Returns (Some 1, None), (), ?h')"
    unfolding x [symmetric] by auto
  from t [where rd = "FirstMsg memStore (ivanStore []) ((), ?h)" and seq = 1] m n o
  have 2: "FirstMsg memStore (ivanStore []) ((), ?h) = (Returns (Some 1, None), (), ?h')"
    unfolding x [symmetric] by auto
  from t [where rd = "LastMsg memStore (ivanStore []) ((), ?h)" and seq = 1] m n o
  have 3: "LastMsg memStore (ivanStore []) ((), ?h) = (Returns (Some 1, None), (), ?h')"
    unfolding x [symmetric] by auto
  from a m n o 1 2 3 show ?thesis
    by (intro conjI)
qed

section \<open>Channels\<close>

lemma wrapChannels_noNil:
  "noNilChannel chs \<Longrightarrow>
     wrapChannels self chs =
       Returns (map (\<lambda>(n, rc). (n, map_option
          (\<lambda>r. r\<lparr>Channel := map_option (withCryptoMsgs self) (Channel r)\<rparr>) rc)) chs)"
  by (induction self chs rule: wrapChannels.induct)
     (auto simp: noNilChannel_def withCryptoMsgs_def)

text \<open>
  C9. With the mutex free, \<^verbatim>\<open>CreateChannel\<close> returns the channel of the wrapped
  store with its handle replaced by a \<^verbatim>\<open>CryptoMsgStore\<close> around the old handle
  and bound to the receiver, and returns the error of the wrapped store when
  there is one. \<^verbatim>\<open>Recover\<close> returns what the wrapped store returned when that is
  no state or an error; otherwise it returns the recovered state with the handle
  of every channel replaced in the same way, and no error. In both, the
  replacement leaves every other field of the channel and of the recovered state
  as it was, and the crypto store itself is unchanged.
\<close>

theorem channel_handles_replaced:
  assumes "\<not> locked cs"
  shows
   "(stCreateChannel st name u = ((Some c, None), u') \<longrightarrow>
       CreateChannel self st name (cs, u) = Some (Returns (Some (withCryptoMsgs self c), None), cs, u')) \<and>
    (stCreateChannel st name u = ((c0, Some err), u') \<longrightarrow>
       CreateChannel self st name (cs, u) = Some (Returns (None, Some err), cs, u')) \<and>
    (stRecover st u = ((rs0, err0), u') \<longrightarrow> rs0 = None \<or> err0 \<noteq> None \<longrightarrow>
       Recover self st (cs, u) = Some (Returns (rs0, err0), cs, u')) \<and>
    (stRecover st u = ((Some rs, None), u') \<longrightarrow> noNilChannel (Channels rs) \<longrightarrow>
       Recover self st (cs, u) =
         Some (Returns (Some (rs\<lparr>Channels := map (\<lambda>(n, rc). (n, map_option
                  (\<lambda>r. r\<lparr>Channel := map_option (withCryptoMsgs self) (Channel r)\<rparr>) rc))
                  (Channels rs)\<rparr>), None), cs, u')) \<and>
    Msgs (withCryptoMsgs self c) = CryptoMsgStore (Msgs c) self \<and>
    Channel.more (withCryptoMsgs self c) = Channel.more c"
proof -
  from assms have l: "Lock cs = Some (cs\<lparr>locked := True\<rparr>)" "Unlock (cs\<lparr>locked := True\<rparr>) = cs"
    by (simp_all add: Lock_def Unlock_def)
  have 1: "stCreateChannel st name u = ((Some c, None), u') \<longrightarrow>
       CreateChannel self st name (cs, u) = Some (Returns (Some (withCryptoMsgs self c), None), cs, u')"
    by (simp add: CreateChannel_def l withCryptoMsgs_def)
  have 2: "stCreateChannel st name u = ((c0, Some err), u') \<longrightarrow>
       CreateChannel self st name (cs, u) = Some (Returns (None, Some err), cs, u')"
    by (simp add: CreateChannel_def l split: option.splits)
  have 3: "stRecover st u = ((rs0, err0), u') \<longrightarrow> rs0 = None \<or> err0 \<noteq> None \<longrightarrow>
       Recover self st (cs, u) = Some (Returns (rs0, err0), cs, u')"
    by (auto simp: Recover_def l split: option.splits)
  have 4: "stRecover st u = ((Some rs, None), u') \<longrightarrow> noNilChannel (Channels rs) \<longrightarrow>
       Recover self st (cs, u) =
         Some (Returns (Some (rs\<lparr>Channels := map (\<lambda>(n, rc). (n, map_option
                  (\<lambda>r. r\<lparr>Channel := map_option (withCryptoMsgs self) (Channel r)\<rparr>) rc))
                  (Channels rs)\<rparr>), None), cs, u')"
    by (simp add: Recover_def l wrapChannels_noNil)
  have 5: "Msgs (withCryptoMsgs self c) = CryptoMsgStore (Msgs c) self"
    "Channel.more (withCryptoMsgs self c) = Channel.more c"
    by (simp_all add: withCryptoMsgs_def)
  from 1 2 3 4 5 show ?thesis
    by blast
qed

theorem channel_handles_replaced_witness:
  "\<not> locked (ivanStore []) \<and>
   stCreateChannel nameStore ''bar'' [''foo''] = ((Some \<lparr>Msgs = Underlying 1\<rparr>, None), [''foo'', ''bar'']) \<and>
   CreateChannel (7 :: nat) nameStore ''bar'' (ivanStore [], [''foo'']) =
     Some (Returns (Some \<lparr>Msgs = CryptoMsgStore (Underlying 1) 7\<rparr>, None), ivanStore [], [''foo'', ''bar'']) \<and>
   stRecover nameStore [''foo''] =
     ((Some \<lparr>Channels = [(''foo'', Some \<lparr>Channel = Some \<lparr>Msgs = Underlying 0\<rparr>\<rparr>)]\<rparr>, None), [''foo'']) \<and>
   noNilChannel [(''foo'', Some \<lparr>Channel = Some \<lparr>Msgs = Underlying (0 :: nat) :: (nat, nat) handle\<rparr>\<rparr>)] \<and>
   Recover (7 :: nat) nameStore (ivanStore [], [''foo'']) =
     Some (Returns (Some \<lparr>Channels =
             [(''foo'', Some \<lparr>Channel = Some \<lparr>Msgs = CryptoMsgStore (Underlying 0) 7\<rparr>\<rparr>)]\<rparr>, None),
           ivanStore [], [''foo''])"
proof -
  have f: "\<not> locked (ivanStore [])"
    by (simp add: ivanStore_def)
  have c: "stCreateChannel nameStore ''bar'' [''foo''] =
      ((Some \<lparr>Msgs = Underlying 1\<rparr>, None), [''foo'', ''bar''])"
    by (simp add: nameStore_def)
  have r: "stRecover nameStore [''foo''] =
      ((Some \<lparr>Channels = [(''foo'', Some \<lparr>Channel = Some \<lparr>Msgs = Underlying 0\<rparr>\<rparr>)]\<rparr>, None), [''foo''])"
    by (simp add: nameStore_def)
  have n: "noNilChannel [(''foo'', Some \<lparr>Channel = Some \<lparr>Msgs = Underlying (0 :: nat) :: (nat, nat) handle\<rparr>\<rparr>)]"
    by (simp add: noNilChannel_def)
  note t = channel_handles_replaced [OF f, where st = nameStore and self = "7 :: nat"]
  from t [where name = "''bar''" and u = "[''foo'']" and c = "\<lparr>Msgs = Underlying 1\<rparr>"
      and u' = "[''foo'', ''bar'']"] c
  have 1: "CreateChannel (7 :: nat) nameStore ''bar'' (ivanStore [], [''foo'']) =
     Some (Returns (Some \<lparr>Msgs = CryptoMsgStore (Underlying 1) 7\<rparr>, None), ivanStore [], [''foo'', ''bar''])"
    by (simp add: withCryptoMsgs_def)
  from t [where u = "[''foo'']" and u' = "[''foo'']"
      and rs = "\<lparr>Channels = [(''foo'', Some \<lparr>Channel = Some \<lparr>Msgs = Underlying 0\<rparr>\<rparr>)]\<rparr>"] r n
  have 2: "Recover (7 :: nat) nameStore (ivanStore [], [''foo'']) =
     Some (Returns (Some \<lparr>Channels =
             [(''foo'', Some \<lparr>Channel = Some \<lparr>Msgs = CryptoMsgStore (Underlying 0) 7\<rparr>\<rparr>)]\<rparr>, None),
           ivanStore [], [''foo''])"
    by (simp add: withCryptoMsgs_def)
  from f c r n 1 2 show ?thesis
    by blast
qed

section \<open>One goroutine alone is the sequential call\<close>

lemma truncate_fields:
  "inEncrypt (machine.truncate s) = inEncrypt s" "encrypted (machine.truncate s) = encrypted s"
  "locked (machine.truncate s) = locked s" "gcm (machine.truncate s) = gcm s"
  "nonce (machine.truncate s) = nonce s" "nonceSize (machine.truncate s) = nonceSize s"
  "cryptoOverhead (machine.truncate s) = cryptoOverhead s"
  "csMaxEncryptCallsPerNonce (machine.truncate s) = csMaxEncryptCallsPerNonce s"
  "randReader (machine.truncate s) = randReader s" "sealLog (machine.truncate s) = sealLog s"
  by (simp_all add: machine.truncate_def)

lemma alone_counted:
  assumes "t < length (goroutines s)" and "point (goroutines s ! t) = AtIncInFlight"
    and "\<not> csMaxEncryptCallsPerNonce s \<le>s encrypted s + 1"
  shows "\<exists>s'. run [t, t, t, t, t] s = Some s' \<and> point (goroutines s' ! t) = Done \<and>
     encrypt (machine.truncate s) (data (goroutines s ! t)) =
       Some (machine.truncate s', result (goroutines s' ! t))"
  using assms
  by (simp add: step_def resume_def Let_def encrypt_below truncate_fields sealInto_def
      machine.truncate_def)

lemma alone_rotating:
  assumes "t < length (goroutines s)" and "point (goroutines s ! t) = AtIncInFlight"
    and "encrypted s + 1 = csMaxEncryptCallsPerNonce s" and "idle s"
    and "ReadFull (randReader s) (NonceSize (gcm s)) = (Inr n, r)"
  shows "\<exists>s'. run [t, t, t, t, t, t, t, t, t, t, t, t, t] s = Some s' \<and>
     point (goroutines s' ! t) = Done \<and>
     encrypt (machine.truncate s) (data (goroutines s ! t)) =
       Some (machine.truncate s', result (goroutines s' ! t))"
  using assms
  by (simp add: step_def resume_def Let_def encrypt_rotate truncate_fields sealInto_def
      machine.truncate_def idle_def generateNewNonce_def Unlock_def)

lemma alone_rotation_fails:
  assumes "t < length (goroutines s)" and "point (goroutines s ! t) = AtIncInFlight"
    and "encrypted s + 1 = csMaxEncryptCallsPerNonce s" and "idle s"
    and "ReadFull (randReader s) (NonceSize (gcm s)) = (Inl err, r)"
  shows "\<exists>s'. run [t, t, t, t, t, t, t] s = Some s' \<and>
     point (goroutines s' ! t) = Done \<and>
     encrypt (machine.truncate s) (data (goroutines s ! t)) =
       Some (machine.truncate s', result (goroutines s' ! t))"
  using assms
  by (simp add: step_def resume_def Let_def encrypt_rotate truncate_fields
      machine.truncate_def idle_def generateNewNonce_def Unlock_def)

section \<open>A rotation that overlaps a rotator\<close>

text \<open>
  C1 at the schedule where the code leaves it. All four calls return a record.
  The record of goroutine 1 starts with the second nonce, which it copied into
  its buffer, and continues with what \<^verbatim>\<open>Seal\<close> made under the third nonce, which
  goroutine 3 assigned to \<^verbatim>\<open>cs.nonce\<close> between the two reads. \<^verbatim>\<open>decrypt\<close> on the
  same store takes the nonce from the record and does not give the payload
  back: the cipher rejects the record.
\<close>

theorem overlapped_rotator_record_does_not_decrypt:
  "tornStart = spawn (ivanStore [Inr nonceB, Inr nonceC]) [[0], [1, 1], [2], [3]] \<and>
   map_option (map point \<circ> goroutines) (run tornSchedule tornStart) =
     Some [Done, Done, Done, Done] \<and>
   map_option (map result \<circ> goroutines) (run tornSchedule tornStart) =
     Some [Returns (Inr (nonceA @ Seal ivanCipher nonceA [0])),
           Returns (Inr (nonceB @ Seal ivanCipher nonceC [1, 1])),
           Returns (Inr (nonceB @ Seal ivanCipher nonceB [2])),
           Returns (Inr (nonceC @ Seal ivanCipher nonceC [3]))] \<and>
   map_option sealLog (run tornSchedule tornStart) =
     Some [Sealed nonceC [3], Sealed nonceC [1, 1], NewNonce nonceC, Sealed nonceB [2],
           NewNonce nonceB, Sealed nonceA [0], NewNonce nonceA] \<and>
   (case run tornSchedule tornStart of
      None \<Rightarrow> False
    | Some s \<Rightarrow>
        decrypt s (nonceB @ Seal ivanCipher nonceC [1, 1]) =
          Returns (Inl (ErrExternal ''message authentication failed'')) \<and>
        decrypt s (nonceB @ Seal ivanCipher nonceC [1, 1]) \<noteq> Returns (Inr [1, 1]))"
proof -
  have "tornStart = spawn (ivanStore [Inr nonceB, Inr nonceC]) [[0], [1, 1], [2], [3]]"
    by (rule tornStart_def)
  moreover have "map_option (map point \<circ> goroutines) (run tornSchedule tornStart) =
     Some [Done, Done, Done, Done]"
    by code_simp
  moreover have "map_option (map result \<circ> goroutines) (run tornSchedule tornStart) =
     Some [Returns (Inr (nonceA @ Seal ivanCipher nonceA [0])),
           Returns (Inr (nonceB @ Seal ivanCipher nonceC [1, 1])),
           Returns (Inr (nonceB @ Seal ivanCipher nonceB [2])),
           Returns (Inr (nonceC @ Seal ivanCipher nonceC [3]))]"
    by code_simp
  moreover have "map_option sealLog (run tornSchedule tornStart) =
     Some [Sealed nonceC [3], Sealed nonceC [1, 1], NewNonce nonceC, Sealed nonceB [2],
           NewNonce nonceB, Sealed nonceA [0], NewNonce nonceA]"
    by code_simp
  moreover have "case run tornSchedule tornStart of
      None \<Rightarrow> False
    | Some s \<Rightarrow>
        decrypt s (nonceB @ Seal ivanCipher nonceC [1, 1]) =
          Returns (Inl (ErrExternal ''message authentication failed'')) \<and>
        decrypt s (nonceB @ Seal ivanCipher nonceC [1, 1]) \<noteq> Returns (Inr [1, 1])"
    by code_simp
  ultimately show ?thesis
    by (intro conjI)
qed

end
